theory Spec2Isabelle
  imports Main
begin

section \<open>The sticky-notes window component\<close>

text \<open>
  The repository holds one Vue component, \<^verbatim>\<open>src/App.vue\<close>, which every window of the
  application runs, and an earlier revision of it (\<^verbatim>\<open>part_000\<close>) that has the note editor
  only: no dashboard, and no \<^verbatim>\<open>trigger_refresh_notes\<close> call after a save. The component is
  a set of handlers run by a single-threaded event loop. A handler runs without
  interruption up to its next \<^verbatim>\<open>await\<close>; what is left of it then waits for the awaited call
  to settle. The model follows that: the state of a window is a record, every handler is
  a function on it, an awaited call is entered in \<open>pending\<close> together with the
  continuation of the handler, and the environment (the user, the timer queue, the
  backend answering calls) is a list of events.
\<close>

subsection \<open>Data\<close>

datatype revision = AppVue | Part000

record NoteInfo =
  id_note :: string
  preview :: string

text \<open>The commands given to \<^verbatim>\<open>invoke\<close>, and the calls on the window handle \<^verbatim>\<open>appWindow\<close>.\<close>

datatype command =
    SaveNote string string
  | TriggerRefreshNotes
  | GetAllNotes
  | CreateNewNoteCmd
  | DeleteNote string
  | OpenNoteWindowCmd string
  | WindowHide
  | WindowClose
  | WindowMinimize
  | WindowSetAlwaysOnTop bool

text \<open>How an awaited call settles: the promise resolves with a value, or it rejects.\<close>

datatype reply = Unit | Notes "NoteInfo list"

datatype outcome = Resolved reply | Rejected

text \<open>
  The rest of a handler after an \<^verbatim>\<open>await\<close>. \<open>Debounce_save\<close> and \<open>Debounce_refresh\<close> are the
  two awaits of the timer callback of \<^verbatim>\<open>debounceSave\<close>, \<open>Close_save\<close> and \<open>Close_refresh\<close>
  those of \<^verbatim>\<open>closeWindow\<close>; \<open>Return\<close> is an await with nothing after it.
\<close>

datatype cont =
    Debounce_save
  | Debounce_refresh
  | Close_save
  | Close_refresh
  | Fetch_list
  | Create_cmd
  | Delete_cmd
  | Open_cmd
  | Return

text \<open>The log: the calls a window issues, how they settle, the timers it sets and clears,
  and what it writes to the error console, in the order these happen.\<close>

datatype obs =
    Invoke nat command
  | Settled nat outcome
  | SetTimeout nat nat
  | ClearTimeout nat
  | ConsoleError string

text \<open>A timer of the timer queue: its handle, its deadline, and the \<^verbatim>\<open>content\<close> its callback
  has captured. In the state, \<open>file_rev\<close> says which of the two files the window runs;
  the fields after \<open>saveTimeout\<close> are the clock, the timer queue, the awaited calls and
  the log.\<close>

type_synonym timer = "nat \<times> nat \<times> string"

record state =
  file_rev :: revision
  isAlwaysOnTop :: bool
  isDashboard :: bool
  isCreatingNote :: bool
  noteId :: string
  currentContent :: string
  allNotes :: "NoteInfo list"
  saveTimeout :: "nat option"
  now :: nat
  timers :: "timer list"
  nextTimer :: nat
  pending :: "(nat \<times> cont) list"
  nextCall :: nat
  trace :: "obs list"

datatype event =
    Tick nat
  | MarkdownUpdated string
  | TimerFires nat
  | Settle nat outcome
  | RefreshNotesEvent
  | ClickRefresh
  | ClickPin
  | ClickMinimize
  | ClickClose
  | ClickNewNote
  | ClickDelete string bool
  | ClickOpen string

subsection \<open>The window's identity\<close>

text \<open>
  \<^verbatim>\<open>label.startsWith(p)\<close> and \<^verbatim>\<open>label.replace(p, r)\<close>; with a string pattern, \<^verbatim>\<open>replace\<close>
  rewrites the first occurrence only.
\<close>

definition startsWith :: "string \<Rightarrow> string \<Rightarrow> bool" where
  "startsWith s p = (take (length p) s = p)"

fun replace_first :: "string \<Rightarrow> string \<Rightarrow> string \<Rightarrow> string" where
  "replace_first [] p r = (if p = [] then r else [])"
| "replace_first (c # cs) p r =
     (if startsWith (c # cs) p then r @ drop (length p) (c # cs)
      else c # replace_first cs p r)"

datatype WindowRole = Dashboard | NoteEditor string

text \<open>\<^verbatim>\<open>const isDashboard = ref(appWindow.label === 'main')\<close>\<close>

definition isDashboard_of :: "string \<Rightarrow> bool" where
  "isDashboard_of label = (label = ''main'')"

text \<open>\<^verbatim>\<open>noteId.value = label.startsWith('note-') ? label.replace('note-', '') : label\<close>\<close>

definition noteId_of :: "string \<Rightarrow> string" where
  "noteId_of label =
     (if startsWith label ''note-'' then replace_first label ''note-'' '''' else label)"

text \<open>\<^verbatim>\<open>onMounted\<close> takes the dashboard branch when \<open>isDashboard\<close> is set and computes the
  note id otherwise.\<close>

definition resolve :: "string \<Rightarrow> WindowRole" where
  "resolve label = (if isDashboard_of label then Dashboard else NoteEditor (noteId_of label))"

subsection \<open>Calls, timers and the log\<close>

definition emit :: "obs \<Rightarrow> state \<Rightarrow> state" where
  "emit ob s = s\<lparr>trace := trace s @ [ob]\<rparr>"

text \<open>\<^verbatim>\<open>await invoke(c)\<close>: the call is issued and the handler is suspended with \<open>k\<close> left to do.\<close>

definition invoke :: "command \<Rightarrow> cont \<Rightarrow> state \<Rightarrow> state" where
  "invoke c k s =
     s\<lparr>pending := pending s @ [(nextCall s, k)],
       nextCall := Suc (nextCall s),
       trace := trace s @ [Invoke (nextCall s) c]\<rparr>"

text \<open>\<^verbatim>\<open>clearTimeout(h)\<close> removes the timer if it is still queued and does nothing otherwise.\<close>

definition clearTimeout :: "nat \<Rightarrow> state \<Rightarrow> state" where
  "clearTimeout h s =
     s\<lparr>timers := filter (\<lambda>t. fst t \<noteq> h) (timers s),
       trace := trace s @ [ClearTimeout h]\<rparr>"

text \<open>\<^verbatim>\<open>if (saveTimeout)\<close>: \<^verbatim>\<open>null\<close> and \<^verbatim>\<open>0\<close> are falsy.\<close>

definition pendingSave :: "state \<Rightarrow> bool" where
  "pendingSave s = (case saveTimeout s of None \<Rightarrow> False | Some h \<Rightarrow> h \<noteq> 0)"

subsection \<open>The handlers\<close>

text \<open>
  \<^verbatim>\<open>debounceSave(content)\<close>: the timer in the slot is cleared, a new one is queued for
  1000 ms from now, and its handle is stored. The callback keeps \<open>content\<close>.
\<close>

definition debounceSave :: "string \<Rightarrow> state \<Rightarrow> state" where
  "debounceSave content s =
     (let s1 = (case saveTimeout s of
                  None \<Rightarrow> s
                | Some h \<Rightarrow> if h \<noteq> 0 then clearTimeout h s else s);
          h' = nextTimer s1
      in s1\<lparr>timers := timers s1 @ [(h', now s1 + 1000, content)],
            nextTimer := Suc h',
            saveTimeout := Some h',
            trace := trace s1 @ [SetTimeout h' 1000]\<rparr>)"

text \<open>The callback of the timer, up to its first await.\<close>

definition timerCallback :: "string \<Rightarrow> state \<Rightarrow> state" where
  "timerCallback content s = invoke (SaveNote (noteId s) content) Debounce_save s"

text \<open>The editor's \<^verbatim>\<open>markdownUpdated\<close> listener.\<close>

definition markdownUpdated :: "string \<Rightarrow> state \<Rightarrow> state" where
  "markdownUpdated markdown s = debounceSave markdown (s\<lparr>currentContent := markdown\<rparr>)"

definition fetchNotes :: "state \<Rightarrow> state" where
  "fetchNotes s = invoke GetAllNotes Fetch_list s"

definition toggleAlwaysOnTop :: "state \<Rightarrow> state" where
  "toggleAlwaysOnTop s =
     (let s1 = s\<lparr>isAlwaysOnTop := \<not> isAlwaysOnTop s\<rparr>
      in invoke (WindowSetAlwaysOnTop (isAlwaysOnTop s1)) Return s1)"

definition minimizeWindow :: "state \<Rightarrow> state" where
  "minimizeWindow s = invoke WindowMinimize Return s"

definition closeWindow :: "state \<Rightarrow> state" where
  "closeWindow s =
     (if isDashboard s then invoke WindowHide Return s
      else case saveTimeout s of
        None \<Rightarrow> invoke WindowClose Return s
      | Some h \<Rightarrow>
          if h \<noteq> 0
          then invoke (SaveNote (noteId s) (currentContent s)) Close_save
                 ((clearTimeout h s)\<lparr>saveTimeout := None\<rparr>)
          else invoke WindowClose Return s)"

definition createNewNote :: "state \<Rightarrow> state" where
  "createNewNote s =
     (if isCreatingNote s then s
      else invoke CreateNewNoteCmd Create_cmd (s\<lparr>isCreatingNote := True\<rparr>))"

text \<open>\<open>confirmed\<close> is what the \<^verbatim>\<open>confirm\<close> dialog returns.\<close>

definition deleteNote :: "string \<Rightarrow> bool \<Rightarrow> state \<Rightarrow> state" where
  "deleteNote i confirmed s = (if confirmed then invoke (DeleteNote i) Delete_cmd s else s)"

definition openNoteWindow :: "string \<Rightarrow> state \<Rightarrow> state" where
  "openNoteWindow i s = invoke (OpenNoteWindowCmd i) Open_cmd s"

text \<open>
  What a suspended handler does when its call settles. In \<^verbatim>\<open>part_000\<close> the two
  \<^verbatim>\<open>trigger_refresh_notes\<close> calls are absent.
\<close>

fun resume :: "cont \<Rightarrow> outcome \<Rightarrow> state \<Rightarrow> state" where
  "resume Debounce_save (Resolved v) s =
     (let s1 = s\<lparr>saveTimeout := None\<rparr>
      in if file_rev s = AppVue then invoke TriggerRefreshNotes Debounce_refresh s1 else s1)"
| "resume Debounce_save Rejected s = emit (ConsoleError ''Failed to save note:'') s"
| "resume Debounce_refresh (Resolved v) s = s"
| "resume Debounce_refresh Rejected s = emit (ConsoleError ''Failed to save note:'') s"
| "resume Close_save (Resolved v) s =
     (if file_rev s = AppVue then invoke TriggerRefreshNotes Close_refresh s
      else invoke WindowClose Return s)"
| "resume Close_save Rejected s =
     invoke WindowClose Return (emit (ConsoleError ''Failed to save note on close:'') s)"
| "resume Close_refresh (Resolved v) s = invoke WindowClose Return s"
| "resume Close_refresh Rejected s =
     invoke WindowClose Return (emit (ConsoleError ''Failed to save note on close:'') s)"
| "resume Fetch_list (Resolved (Notes ns)) s = s\<lparr>allNotes := ns\<rparr>"
| "resume Fetch_list (Resolved Unit) s = s"
| "resume Fetch_list Rejected s = emit (ConsoleError ''Failed to fetch notes:'') s"
| "resume Create_cmd (Resolved v) s = s\<lparr>isCreatingNote := False\<rparr>"
| "resume Create_cmd Rejected s =
     (emit (ConsoleError ''Frontend: Failed to create new note:'') s)\<lparr>isCreatingNote := False\<rparr>"
| "resume Delete_cmd (Resolved v) s = s"
| "resume Delete_cmd Rejected s = emit (ConsoleError ''Failed to delete note:'') s"
| "resume Open_cmd (Resolved v) s = s"
| "resume Open_cmd Rejected s = emit (ConsoleError ''Failed to open note window:'') s"
| "resume Return out s = s"

text \<open>
  A call settles with a value of its type: \<^verbatim>\<open>get_all_notes\<close> resolves with a list of notes,
  every other call with no value. The event loop below takes no other reply.
\<close>

fun accepts :: "cont \<Rightarrow> outcome \<Rightarrow> bool" where
  "accepts k (Resolved (Notes ns)) = (k = Fetch_list)"
| "accepts k (Resolved Unit) = (k \<noteq> Fetch_list)"
| "accepts k Rejected = True"

subsection \<open>The event loop\<close>

text \<open>
  One event at a time. An event that cannot happen in the current state leaves it as it
  is: a timer fires only when it is queued and its delay has passed, a call settles only
  while it is awaited, the editor exists in a note window only, and the dashboard's
  controls in the dashboard only. Each note card of the dashboard has its own Open and
  Delete buttons, so these two act on a listed note. The \<^verbatim>\<open>console.log\<close> lines are left out.
\<close>

definition listed :: "string \<Rightarrow> state \<Rightarrow> bool" where
  "listed i s = (i \<in> set (map id_note (allNotes s)))"

fun step :: "state \<Rightarrow> event \<Rightarrow> state" where
  "step s (Tick d) = s\<lparr>now := now s + d\<rparr>"
| "step s (MarkdownUpdated markdown) =
     (if isDashboard s then s else markdownUpdated markdown s)"
| "step s (TimerFires h) =
     (case find (\<lambda>t. fst t = h) (timers s) of
        None \<Rightarrow> s
      | Some (h', deadline, content) \<Rightarrow>
          if deadline \<le> now s
          then timerCallback content (s\<lparr>timers := filter (\<lambda>t. fst t \<noteq> h) (timers s)\<rparr>)
          else s)"
| "step s (Settle r out) =
     (case map_of (pending s) r of
        None \<Rightarrow> s
      | Some k \<Rightarrow>
          if accepts k out
          then resume k out
                 (s\<lparr>pending := filter (\<lambda>p. fst p \<noteq> r) (pending s),
                    trace := trace s @ [Settled r out]\<rparr>)
          else s)"
| "step s RefreshNotesEvent = (if isDashboard s then fetchNotes s else s)"
| "step s ClickRefresh = (if isDashboard s then fetchNotes s else s)"
| "step s ClickPin = (if isDashboard s then s else toggleAlwaysOnTop s)"
| "step s ClickMinimize = minimizeWindow s"
| "step s ClickClose = closeWindow s"
| "step s ClickNewNote = (if isDashboard s then createNewNote s else s)"
| "step s (ClickDelete i confirmed) =
     (if isDashboard s \<and> listed i s then deleteNote i confirmed s else s)"
| "step s (ClickOpen i) = (if isDashboard s \<and> listed i s then openNoteWindow i s else s)"

definition run :: "state \<Rightarrow> event list \<Rightarrow> state" where
  "run s evs = foldl step s evs"

text \<open>What one event adds to the log.\<close>

definition emitted :: "state \<Rightarrow> event \<Rightarrow> obs list" where
  "emitted s e = drop (length (trace s)) (trace (step s e))"

text \<open>What a run has added to the log since the state \<open>s\<close>.\<close>

definition since :: "state \<Rightarrow> state \<Rightarrow> obs list" where
  "since s t = drop (length (trace s)) (trace t)"

text \<open>
  The window once \<^verbatim>\<open>onMounted\<close> has finished: the role is taken from the label (the earlier
  revision has no dashboard), a note window holds the content \<open>saved\<close> that \<^verbatim>\<open>load_note\<close>
  returned (empty if it failed), the dashboard the list \<open>notes\<close> of its first fetch.
\<close>

definition mounted :: "revision \<Rightarrow> string \<Rightarrow> string \<Rightarrow> NoteInfo list \<Rightarrow> state" where
  "mounted r label saved notes =
     (let dash = (r = AppVue \<and> isDashboard_of label)
      in \<lparr>file_rev = r,
          isAlwaysOnTop = False,
          isDashboard = dash,
          isCreatingNote = False,
          noteId = (if dash then [] else noteId_of label),
          currentContent = (if dash then [] else saved),
          allNotes = (if dash then notes else []),
          saveTimeout = None,
          now = 0,
          timers = [],
          nextTimer = 1,
          pending = [],
          nextCall = 0,
          trace = []\<rparr>)"

subsection \<open>Bookkeeping of calls\<close>

text \<open>The command a suspended handler is waiting for.\<close>

fun awaits :: "cont \<Rightarrow> command \<Rightarrow> bool" where
  "awaits Debounce_save c = (case c of SaveNote i x \<Rightarrow> True | _ \<Rightarrow> False)"
| "awaits Close_save c = (case c of SaveNote i x \<Rightarrow> True | _ \<Rightarrow> False)"
| "awaits Debounce_refresh c = (c = TriggerRefreshNotes)"
| "awaits Close_refresh c = (c = TriggerRefreshNotes)"
| "awaits Fetch_list c = (c = GetAllNotes)"
| "awaits Create_cmd c = (c = CreateNewNoteCmd)"
| "awaits Delete_cmd c = (case c of DeleteNote i \<Rightarrow> True | _ \<Rightarrow> False)"
| "awaits Open_cmd c = (case c of OpenNoteWindowCmd i \<Rightarrow> True | _ \<Rightarrow> False)"
| "awaits Return c =
     (case c of WindowHide \<Rightarrow> True | WindowClose \<Rightarrow> True | WindowMinimize \<Rightarrow> True
      | WindowSetAlwaysOnTop b \<Rightarrow> True | _ \<Rightarrow> False)"

text \<open>Log entries that neither issue nor settle a call.\<close>

fun quiet :: "obs \<Rightarrow> bool" where
  "quiet (Invoke r c) = False"
| "quiet (Settled r out) = False"
| "quiet ob = True"

text \<open>
  Calls are numbered in the order they are issued. A call is awaited exactly while it has
  been issued and not settled, by a continuation of the handler that issued it.
\<close>

definition callsOK :: "(nat \<times> cont) list \<Rightarrow> nat \<Rightarrow> obs list \<Rightarrow> bool" where
  "callsOK ps n l \<longleftrightarrow>
     distinct (map fst ps)
     \<and> (\<forall>r k. (r, k) \<in> set ps \<longrightarrow>
           r < n \<and> (\<exists>c. Invoke r c \<in> set l \<and> awaits k c) \<and> (\<forall>out. Settled r out \<notin> set l))
     \<and> (\<forall>r c. Invoke r c \<in> set l \<longrightarrow>
           r < n \<and> ((\<exists>out. Settled r out \<in> set l) \<or> (\<exists>k. (r, k) \<in> set ps))
           \<and> (\<forall>c'. Invoke r c' \<in> set l \<longrightarrow> c' = c))
     \<and> (\<forall>r out. Settled r out \<in> set l \<longrightarrow> r < n)"

definition calls_ok :: "state \<Rightarrow> bool" where
  "calls_ok s = callsOK (pending s) (nextCall s) (trace s)"

subsection \<open>Reading the log\<close>

text \<open>A refresh event is published by the \<^verbatim>\<open>trigger_refresh_notes\<close> command.\<close>

fun isRefresh :: "obs \<Rightarrow> bool" where
  "isRefresh (Invoke r c) = (c = TriggerRefreshNotes)"
| "isRefresh ob = False"

subsection \<open>The in-flight flag of note creation\<close>

fun isCreate :: "obs \<Rightarrow> bool" where
  "isCreate (Invoke r c) = (c = CreateNewNoteCmd)"
| "isCreate ob = False"

text \<open>The awaited calls that are \<^verbatim>\<open>create_new_note_cmd\<close> calls; while the flag is set
  there is one, otherwise none.\<close>

definition creating :: "(nat \<times> cont) list \<Rightarrow> (nat \<times> cont) list" where
  "creating ps = filter (\<lambda>p. snd p = Create_cmd) ps"

definition creating_ok :: "state \<Rightarrow> bool" where
  "creating_ok s \<longleftrightarrow> length (creating (pending s)) = (if isCreatingNote s then 1 else 0)"

subsection \<open>Bookkeeping of timers\<close>

text \<open>
  Handles are positive and given out in increasing order, so a new handle is not in the
  queue; a queued timer whose handle is in the slot has captured the current content.
\<close>

definition timersOK :: "timer list \<Rightarrow> nat \<Rightarrow> nat option \<Rightarrow> string \<Rightarrow> bool" where
  "timersOK ts n slot content \<longleftrightarrow>
     0 < n \<and> (\<forall>t \<in> set ts. fst t < n) \<and> distinct (map fst ts)
     \<and> (\<forall>h. slot = Some h \<longrightarrow> 0 < h \<and> h < n)
     \<and> (\<forall>h d c. (h, d, c) \<in> set ts \<and> slot = Some h \<longrightarrow> c = content)"

definition timers_ok :: "state \<Rightarrow> bool" where
  "timers_ok s = timersOK (timers s) (nextTimer s) (saveTimeout s) (currentContent s)"

subsection \<open>The flush of a closing window\<close>

text \<open>
  The window-destroy call is \<^verbatim>\<open>appWindow.close()\<close>. \<open>closing\<close> marks the continuations of
  \<^verbatim>\<open>closeWindow\<close> that lead to it. \<open>destroy_after n l\<close>: every destroy call in the log \<open>l\<close>
  comes after call \<open>n\<close> has settled. A window is \<open>flushing n\<close> while the save call \<open>n\<close> of
  its close handler is awaited and no destroy call has been made; it has \<open>flushed n\<close> once
  that call has settled.
\<close>

fun isDestroy :: "obs \<Rightarrow> bool" where
  "isDestroy (Invoke q c) = (c = WindowClose)"
| "isDestroy ob = False"

fun closing :: "cont \<Rightarrow> bool" where
  "closing Close_save = True"
| "closing Close_refresh = True"
| "closing k = False"

definition destroy_after :: "nat \<Rightarrow> obs list \<Rightarrow> bool" where
  "destroy_after n l \<longleftrightarrow>
     (\<forall>pre post q. l = pre @ Invoke q WindowClose # post \<longrightarrow> (\<exists>out. Settled n out \<in> set pre))"

definition not_closing :: "state \<Rightarrow> bool" where
  "not_closing t \<longleftrightarrow>
     (\<forall>ob \<in> set (trace t). \<not> isDestroy ob) \<and> (\<forall>p \<in> set (pending t). \<not> closing (snd p))"

definition flushing :: "nat \<Rightarrow> state \<Rightarrow> bool" where
  "flushing n t \<longleftrightarrow>
     map_of (pending t) n = Some Close_save
     \<and> (\<forall>p \<in> set (pending t). closing (snd p) \<longrightarrow> p = (n, Close_save))
     \<and> (\<forall>ob \<in> set (trace t). \<not> isDestroy ob)"

definition flushed :: "nat \<Rightarrow> state \<Rightarrow> bool" where
  "flushed n t \<longleftrightarrow> destroy_after n (trace t) \<and> (\<exists>out. Settled n out \<in> set (trace t))"

subsection \<open>Bursts of edits\<close>

text \<open>The save calls of a log, in order: note id and content.\<close>

fun saveCalls :: "obs list \<Rightarrow> (string \<times> string) list" where
  "saveCalls [] = []"
| "saveCalls (Invoke q (SaveNote i c) # l) = (i, c) # saveCalls l"
| "saveCalls (ob # l) = saveCalls l"

text \<open>The contents the editor has reported in a list of events.\<close>

fun edits :: "event list \<Rightarrow> string list" where
  "edits [] = []"
| "edits (MarkdownUpdated c # evs) = c # edits evs"
| "edits (e # evs) = edits evs"

text \<open>
  \<open>within_window g evs\<close>: in \<open>evs\<close>, every edit arrives less than 1000 ms after the edit
  before it. \<open>g\<close> is the time since the last edit, \<open>None\<close> before the first one; the
  \<open>Tick\<close> events say how time passes.
\<close>

fun elapse :: "nat option \<Rightarrow> event \<Rightarrow> nat option" where
  "elapse g (Tick d) = map_option (\<lambda>x. x + d) g"
| "elapse g (MarkdownUpdated c) = Some 0"
| "elapse g e = g"

fun in_time :: "nat option \<Rightarrow> event \<Rightarrow> bool" where
  "in_time (Some x) (MarkdownUpdated c) = (x < 1000)"
| "in_time g e = True"

fun within_window :: "nat option \<Rightarrow> event list \<Rightarrow> bool" where
  "within_window g [] = True"
| "within_window g (e # evs) = (in_time g e \<and> within_window (elapse g e) evs)"

text \<open>\<open>always P s evs\<close>: \<open>P\<close> holds in every state the run of \<open>evs\<close> from \<open>s\<close> passes through.\<close>

fun always :: "(state \<Rightarrow> bool) \<Rightarrow> state \<Rightarrow> event list \<Rightarrow> bool" where
  "always P s [] = P s"
| "always P s (e # evs) = (P s \<and> always P (step s e) evs)"

text \<open>A save call issued by a debounce timer is awaited.\<close>

definition debouncing :: "state \<Rightarrow> bool" where
  "debouncing t \<longleftrightarrow> (\<exists>p \<in> set (pending t). snd p = Debounce_save)"

text \<open>
  The states of a window during a burst of edits that started with \<open>b\<close> as the save
  calls made so far: before the first edit; a timer for the current content is queued
  and its handle is in the slot; the timer has fired and the content was saved.
\<close>

definition burst_inv :: "(string \<times> string) list \<Rightarrow> nat option \<Rightarrow> state \<Rightarrow> bool" where
  "burst_inv b g t \<longleftrightarrow>
     \<not> isDashboard t \<and> 0 < nextTimer t \<and>
     (case g of
        None \<Rightarrow> timers t = [] \<and> \<not> debouncing t \<and> saveCalls (trace t) = b
      | Some x \<Rightarrow>
          (\<exists>h d. timers t = [(h, d, currentContent t)] \<and> saveTimeout t = Some h \<and> h \<noteq> 0
                 \<and> d + x = now t + 1000 \<and> \<not> debouncing t \<and> saveCalls (trace t) = b)
          \<or> (timers t = [] \<and> 1000 \<le> x
               \<and> saveCalls (trace t) = b @ [(noteId t, currentContent t)]))"

section \<open>Properties\<close>

subsection \<open>The log only grows\<close>

named_theorems handler_defs

lemmas [handler_defs] = emit_def invoke_def clearTimeout_def debounceSave_def timerCallback_def
  markdownUpdated_def fetchNotes_def toggleAlwaysOnTop_def minimizeWindow_def closeWindow_def
  createNewNote_def deleteNote_def openNoteWindow_def

lemma trace_resume: "\<exists>l. trace (resume k out s) = trace s @ l"
  by (cases "(k, out, s)" rule: resume.cases) (auto simp: handler_defs Let_def)

lemma trace_step_ex: "\<exists>l. trace (step s e) = trace s @ l"
proof (cases e)
  case (Settle r out)
  show ?thesis
  proof (cases "map_of (pending s) r")
    case None
    with Settle show ?thesis by simp
  next
    case (Some k)
    obtain l where "trace (resume k out (s\<lparr>pending := filter (\<lambda>p. fst p \<noteq> r) (pending s),
                    trace := trace s @ [Settled r out]\<rparr>)) = (trace s @ [Settled r out]) @ l"
      using trace_resume [of k out "s\<lparr>pending := filter (\<lambda>p. fst p \<noteq> r) (pending s),
                    trace := trace s @ [Settled r out]\<rparr>"] by auto
    with Settle Some show ?thesis by auto
  qed
qed (auto simp: handler_defs Let_def split: option.splits)

lemma trace_step: "trace (step s e) = trace s @ emitted s e"
  using trace_step_ex [of s e] by (auto simp: emitted_def)

lemma run_Nil [simp]: "run s [] = s"
  by (simp add: run_def)

lemma run_Cons [simp]: "run s (e # evs) = run (step s e) evs"
  by (simp add: run_def)

lemma run_append: "run s (xs @ ys) = run (run s xs) ys"
  by (simp add: run_def)

lemma run_snoc: "run s (xs @ [e]) = step (run s xs) e"
  by (simp add: run_def)

lemma trace_run_ex: "\<exists>l. trace (run s evs) = trace s @ l"
proof (induction evs arbitrary: s)
  case Nil
  show ?case by simp
next
  case (Cons e evs)
  obtain l where "trace (run (step s e) evs) = trace (step s e) @ l"
    using Cons.IH by blast
  then show ?case by (simp add: trace_step)
qed

lemma trace_run: "trace (run s evs) = trace s @ since s (run s evs)"
  using trace_run_ex [of s evs] by (auto simp: since_def)

subsection \<open>Window identity\<close>

lemma replace_first_prefix:
  "startsWith s p \<Longrightarrow> replace_first s p r = r @ drop (length p) s"
  by (cases s) (auto simp: startsWith_def)

text \<open>
  C4. The role of a window is a function of its label alone: \<open>main\<close> is the dashboard; a
  label that starts with \<open>note-\<close> is the editor of the note named by the rest of the label,
  so \<open>note-42\<close> is the editor of note \<open>42\<close>; any other label is the editor of the note
  named by the whole label.
\<close>

theorem resolve_label:
  "resolve ''main'' = Dashboard
   \<and> (startsWith label ''note-'' \<longrightarrow> resolve label = NoteEditor (drop (length ''note-'') label))
   \<and> (label \<noteq> ''main'' \<and> \<not> startsWith label ''note-'' \<longrightarrow> resolve label = NoteEditor label)
   \<and> resolve ''note-42'' = NoteEditor ''42''"
proof -
  have main: "resolve ''main'' = Dashboard"
    by (simp add: resolve_def isDashboard_of_def)
  have strip: "resolve label = NoteEditor (drop (length ''note-'') label)"
    if p: "startsWith label ''note-''"
  proof -
    have "label \<noteq> ''main''" using p by (auto simp: startsWith_def)
    then show ?thesis
      using p by (simp add: resolve_def isDashboard_of_def noteId_of_def replace_first_prefix)
  qed
  have other: "resolve label = NoteEditor label"
    if "label \<noteq> ''main''" "\<not> startsWith label ''note-''"
    using that by (simp add: resolve_def isDashboard_of_def noteId_of_def)
  have ex: "resolve ''note-42'' = NoteEditor ''42''"
    by (simp add: resolve_def isDashboard_of_def noteId_of_def startsWith_def)
  from main strip other ex show ?thesis by blast
qed

theorem resolve_label_witness:
  "startsWith ''note-7'' ''note-'' \<and> resolve ''note-7'' = NoteEditor ''7''
   \<and> ''memo'' \<noteq> ''main'' \<and> \<not> startsWith ''memo'' ''note-'' \<and> resolve ''memo'' = NoteEditor ''memo''"
  using resolve_label [of "''note-7''"] resolve_label [of "''memo''"]
  by (simp add: startsWith_def)

subsection \<open>Calls and their continuations\<close>

lemma callsOK_quiet: "callsOK ps n l \<Longrightarrow> quiet ob \<Longrightarrow> callsOK ps n (l @ [ob])"
  unfolding callsOK_def by (cases ob) auto

lemma callsOK_invoke:
  assumes "callsOK ps n l" "awaits k c"
  shows "callsOK (ps @ [(n, k)]) (Suc n) (l @ [Invoke n c])"
proof -
  have d: "distinct (map fst ps)"
    and p: "\<And>r k. (r, k) \<in> set ps \<Longrightarrow>
           r < n \<and> (\<exists>c. Invoke r c \<in> set l \<and> awaits k c) \<and> (\<forall>out. Settled r out \<notin> set l)"
    and i: "\<And>r c. Invoke r c \<in> set l \<Longrightarrow>
           r < n \<and> ((\<exists>out. Settled r out \<in> set l) \<or> (\<exists>k. (r, k) \<in> set ps))
           \<and> (\<forall>c'. Invoke r c' \<in> set l \<longrightarrow> c' = c)"
    and t: "\<And>r out. Settled r out \<in> set l \<Longrightarrow> r < n"
    using assms(1) unfolding callsOK_def by blast+
  have 1: "distinct (map fst (ps @ [(n, k)]))"
    using d p by force
  have 2: "r < Suc n \<and> (\<exists>c'. Invoke r c' \<in> set (l @ [Invoke n c]) \<and> awaits k' c')
           \<and> (\<forall>out. Settled r out \<notin> set (l @ [Invoke n c]))"
    if "(r, k') \<in> set (ps @ [(n, k)])" for r k'
  proof (cases "(r, k') \<in> set ps")
    case True
    from p [OF True] show ?thesis by (auto simp: less_Suc_eq)
  next
    case False
    with that have "r = n" "k' = k" by auto
    with assms(2) t show ?thesis by auto
  qed
  have 3: "r < Suc n
           \<and> ((\<exists>out. Settled r out \<in> set (l @ [Invoke n c])) \<or> (\<exists>k'. (r, k') \<in> set (ps @ [(n, k)])))
           \<and> (\<forall>c''. Invoke r c'' \<in> set (l @ [Invoke n c]) \<longrightarrow> c'' = c')"
    if "Invoke r c' \<in> set (l @ [Invoke n c])" for r c'
  proof (cases "Invoke r c' \<in> set l")
    case True
    from i [OF True] show ?thesis by (auto simp: less_Suc_eq)
  next
    case False
    with that have e: "r = n" "c' = c" by auto
    have "Invoke n c'' \<notin> set l" for c'' using i [of n c''] by auto
    with e show ?thesis by auto
  qed
  have 4: "r < Suc n" if "Settled r out \<in> set (l @ [Invoke n c])" for r out
    using that t [of r out] by auto
  show ?thesis
    unfolding callsOK_def using 1 2 3 4 by blast
qed

lemma callsOK_settle:
  assumes "callsOK ps n l" "map_of ps r = Some k"
  shows "callsOK (filter (\<lambda>p. fst p \<noteq> r) ps) n (l @ [Settled r out])"
proof -
  have d: "distinct (map fst ps)"
    and p: "\<And>r k. (r, k) \<in> set ps \<Longrightarrow>
           r < n \<and> (\<exists>c. Invoke r c \<in> set l \<and> awaits k c) \<and> (\<forall>out. Settled r out \<notin> set l)"
    and i: "\<And>r c. Invoke r c \<in> set l \<Longrightarrow>
           r < n \<and> ((\<exists>out. Settled r out \<in> set l) \<or> (\<exists>k. (r, k) \<in> set ps))
           \<and> (\<forall>c'. Invoke r c' \<in> set l \<longrightarrow> c' = c)"
    and t: "\<And>r out. Settled r out \<in> set l \<Longrightarrow> r < n"
    using assms(1) unfolding callsOK_def by blast+
  have m: "(r, k) \<in> set ps" using assms(2) by (rule map_of_SomeD)
  have 1: "distinct (map fst (filter (\<lambda>p. fst p \<noteq> r) ps))"
    using d by (simp add: distinct_map_filter)
  have 2: "r' < n \<and> (\<exists>c. Invoke r' c \<in> set (l @ [Settled r out]) \<and> awaits k' c)
           \<and> (\<forall>out'. Settled r' out' \<notin> set (l @ [Settled r out]))"
    if "(r', k') \<in> set (filter (\<lambda>p. fst p \<noteq> r) ps)" for r' k'
  proof -
    from that have a: "(r', k') \<in> set ps" "r' \<noteq> r" by auto
    from p [OF a(1)] a(2) show ?thesis by auto
  qed
  have 3: "r' < n
           \<and> ((\<exists>out'. Settled r' out' \<in> set (l @ [Settled r out]))
               \<or> (\<exists>k'. (r', k') \<in> set (filter (\<lambda>p. fst p \<noteq> r) ps)))
           \<and> (\<forall>c'. Invoke r' c' \<in> set (l @ [Settled r out]) \<longrightarrow> c' = c)"
    if "Invoke r' c \<in> set (l @ [Settled r out])" for r' c
  proof -
    from that have a: "Invoke r' c \<in> set l" by auto
    show ?thesis
    proof (cases "r' = r")
      case True
      with i [OF a] show ?thesis by auto
    next
      case False
      with i [OF a] show ?thesis by auto
    qed
  qed
  have 4: "r' < n" if "Settled r' out' \<in> set (l @ [Settled r out])" for r' out'
    using that t [of r' out'] p [OF m] by auto
  show ?thesis
    unfolding callsOK_def using 1 2 3 4 by blast
qed

lemma callsOK_map_of:
  "callsOK ps n l \<Longrightarrow> map_of ps r = Some k \<longleftrightarrow> (r, k) \<in> set ps"
  unfolding callsOK_def by auto

lemma callsOK_fresh: "callsOK ps n l \<Longrightarrow> map_of ps n = None"
  unfolding callsOK_def by (cases "map_of ps n") (auto dest!: map_of_SomeD)

lemma callsOK_quiet2:
  "callsOK ps n l \<Longrightarrow> quiet ob \<Longrightarrow> quiet ob' \<Longrightarrow> callsOK ps n (l @ [ob, ob'])"
  using callsOK_quiet [OF callsOK_quiet, of ps n l ob ob'] by simp

lemma callsOK_quiet_invoke:
  "callsOK ps n l \<Longrightarrow> quiet ob \<Longrightarrow> awaits k c \<Longrightarrow>
   callsOK (ps @ [(n, k)]) (Suc n) (l @ [ob, Invoke n c])"
  using callsOK_invoke [OF callsOK_quiet, of ps n l ob k c] by simp

lemma calls_ok_resume:
  assumes "callsOK (pending s) (nextCall s) (trace s)"
  shows "callsOK (pending (resume k out s)) (nextCall (resume k out s)) (trace (resume k out s))"
  using assms
  by (cases "(k, out, s)" rule: resume.cases)
     (auto simp: handler_defs Let_def intro!: callsOK_quiet callsOK_invoke callsOK_quiet2 callsOK_quiet_invoke)

lemma calls_ok_step: "calls_ok s \<Longrightarrow> calls_ok (step s e)"
proof (cases e)
  case (Settle r out)
  assume ok: "calls_ok s"
  show ?thesis
  proof (cases "map_of (pending s) r")
    case None
    with Settle ok show ?thesis by simp
  next
    case (Some k)
    let ?s = "s\<lparr>pending := filter (\<lambda>p. fst p \<noteq> r) (pending s), trace := trace s @ [Settled r out]\<rparr>"
    have "callsOK (pending ?s) (nextCall ?s) (trace ?s)"
      using callsOK_settle [OF ok [unfolded calls_ok_def] Some, of out] by simp
    from calls_ok_resume [OF this, of k out] Settle Some ok show ?thesis
      by (simp add: calls_ok_def)
  qed
qed (auto simp: calls_ok_def handler_defs Let_def split: option.splits
       intro!: callsOK_quiet callsOK_invoke callsOK_quiet2 callsOK_quiet_invoke)

lemma calls_ok_run: "calls_ok s \<Longrightarrow> calls_ok (run s evs)"
  by (induction evs arbitrary: s) (auto intro: calls_ok_step)

lemma calls_ok_mounted: "calls_ok (mounted r label saved notes)"
  by (simp add: calls_ok_def callsOK_def mounted_def Let_def)

subsection \<open>What never changes\<close>

lemma fixed_resume:
  "file_rev (resume k out s) = file_rev s \<and> isDashboard (resume k out s) = isDashboard s
   \<and> noteId (resume k out s) = noteId s"
  by (cases "(k, out, s)" rule: resume.cases) (auto simp: handler_defs Let_def)

lemma fixed_step:
  "file_rev (step s e) = file_rev s \<and> isDashboard (step s e) = isDashboard s
   \<and> noteId (step s e) = noteId s"
  by (cases e) (auto simp: handler_defs Let_def fixed_resume split: option.splits)

lemma fixed_run:
  "file_rev (run s evs) = file_rev s \<and> isDashboard (run s evs) = isDashboard s
   \<and> noteId (run s evs) = noteId s"
  by (induction evs arbitrary: s) (auto simp: fixed_step)

subsection \<open>Evaluating concrete runs\<close>

lemmas eval_defs = mounted_def handler_defs Let_def isDashboard_of_def noteId_of_def
  startsWith_def emitted_def since_def listed_def pendingSave_def

text \<open>A note window in which one edit has been made and its timer has fired.\<close>

lemma fired_once: "run (mounted AppVue ''note-42'' [] []) [MarkdownUpdated ''Hello'', Tick 1000, TimerFires 1]
  = \<lparr>file_rev = AppVue, isAlwaysOnTop = False, isDashboard = False,
    isCreatingNote = False, noteId = ''42'', currentContent = ''Hello'',
    allNotes = [], saveTimeout = Some 1, now = 1000, timers = [],
    nextTimer = 2, pending = [(0, Debounce_save)], nextCall = 1,
    trace = [SetTimeout 1 1000, Invoke 0 (SaveNote ''42'' ''Hello'')]\<rparr>"
  by (simp add: eval_defs)

subsection \<open>Refresh events\<close>

lemma accepts_Resolved:
  "accepts k (Resolved v) \<longleftrightarrow> (if k = Fetch_list then v \<noteq> Unit else v = Unit)"
  by (cases v) auto

lemma refresh_count_settle:
  assumes "file_rev s = AppVue" "map_of (pending s) r = Some k"
  shows "length (filter isRefresh (emitted s (Settle r out))) =
           (if out = Resolved Unit \<and> (k = Debounce_save \<or> k = Close_save) then 1 else 0)"
  using assms
  by (cases "(k, out, s)" rule: resume.cases)
     (auto simp: emitted_def handler_defs Let_def accepts_Resolved)

lemma refresh_count_unawaited:
  "map_of (pending s) r = None \<Longrightarrow> emitted s (Settle r out) = []"
  by (simp add: emitted_def)

lemma refresh_count_other:
  "(\<And>r out. e \<noteq> Settle r out) \<Longrightarrow> filter isRefresh (emitted s e) = []"
  by (cases e) (auto simp: emitted_def handler_defs Let_def split: option.splits)

lemma save_awaited_iff:
  assumes "calls_ok s"
  shows "(\<exists>i c. Invoke r (SaveNote i c) \<in> set (trace s) \<and> (\<forall>out. Settled r out \<notin> set (trace s)))
         \<longleftrightarrow> (map_of (pending s) r = Some Debounce_save \<or> map_of (pending s) r = Some Close_save)"
proof
  assume "\<exists>i c. Invoke r (SaveNote i c) \<in> set (trace s) \<and> (\<forall>out. Settled r out \<notin> set (trace s))"
  then obtain i c where a: "Invoke r (SaveNote i c) \<in> set (trace s)"
    and b: "\<And>out. Settled r out \<notin> set (trace s)" by blast
  from assms a b obtain k where k: "(r, k) \<in> set (pending s)"
    unfolding calls_ok_def callsOK_def by blast
  from assms k obtain c' where c': "Invoke r c' \<in> set (trace s)" "awaits k c'"
    unfolding calls_ok_def callsOK_def by blast
  from assms a c'(1) have "c' = SaveNote i c"
    unfolding calls_ok_def callsOK_def by blast
  with c'(2) have "k = Debounce_save \<or> k = Close_save" by (cases k) auto
  with k assms show "map_of (pending s) r = Some Debounce_save \<or> map_of (pending s) r = Some Close_save"
    by (auto simp: calls_ok_def callsOK_map_of)
next
  assume "map_of (pending s) r = Some Debounce_save \<or> map_of (pending s) r = Some Close_save"
  then obtain k where k: "(r, k) \<in> set (pending s)" "k = Debounce_save \<or> k = Close_save"
    by (auto dest: map_of_SomeD)
  from assms k(1) obtain c' where c': "Invoke r c' \<in> set (trace s)" "awaits k c'"
    and b: "\<And>out. Settled r out \<notin> set (trace s)"
    unfolding calls_ok_def callsOK_def by blast
  from c'(2) k(2) obtain i c where "c' = SaveNote i c" by (cases c') auto
  with c'(1) b
  show "\<exists>i c. Invoke r (SaveNote i c) \<in> set (trace s) \<and> (\<forall>out. Settled r out \<notin> set (trace s))"
    by blast
qed

lemma emitted_save_rejected:
  "map_of (pending s) r = Some Debounce_save \<Longrightarrow>
     emitted s (Settle r Rejected) = [Settled r Rejected, ConsoleError ''Failed to save note:'']"
  "map_of (pending s) r = Some Close_save \<Longrightarrow>
     emitted s (Settle r Rejected) =
       [Settled r Rejected, ConsoleError ''Failed to save note on close:'',
        Invoke (nextCall s) WindowClose]"
  by (auto simp: emitted_def handler_defs)

text \<open>
  C3. In \<^verbatim>\<open>App.vue\<close>, a refresh event is published exactly when a save call succeeds.
  Whatever the window has done so far, an event makes it publish one refresh event if the
  event is the successful settlement of a save call that was issued and had not settled
  (issued by the debounce timer or by the flush on close alike), and none otherwise. When
  such a save call fails, the window writes the error to the console and does nothing
  else, except that a closing window goes on to close: no refresh event, and no second
  save call.
\<close>

theorem refresh_iff_save_succeeded:
  assumes "s = run (mounted AppVue label saved notes) evs"
  shows "length (filter isRefresh (emitted s e)) =
           (if \<exists>r i c. e = Settle r (Resolved Unit) \<and> Invoke r (SaveNote i c) \<in> set (trace s)
                 \<and> (\<forall>out. Settled r out \<notin> set (trace s))
            then 1 else 0)
         \<and> (Invoke r (SaveNote i c) \<in> set (trace s) \<and> (\<forall>out. Settled r out \<notin> set (trace s)) \<longrightarrow>
              emitted s (Settle r Rejected) =
                [Settled r Rejected, ConsoleError ''Failed to save note:'']
              \<or> emitted s (Settle r Rejected) =
                [Settled r Rejected, ConsoleError ''Failed to save note on close:'',
                 Invoke (nextCall s) WindowClose])"
proof -
  have ok: "calls_ok s"
    using assms calls_ok_run [OF calls_ok_mounted] by simp
  have rv: "file_rev s = AppVue"
    using assms fixed_run [of "mounted AppVue label saved notes" evs] by (simp add: mounted_def Let_def)
  let ?save = "\<lambda>r. \<exists>i c. Invoke r (SaveNote i c) \<in> set (trace s) \<and> (\<forall>out. Settled r out \<notin> set (trace s))"
  have count: "length (filter isRefresh (emitted s e)) =
           (if \<exists>r. e = Settle r (Resolved Unit) \<and> ?save r then 1 else 0)"
  proof (cases "\<exists>r out. e = Settle r out")
    case False
    then have "filter isRefresh (emitted s e) = []" by (intro refresh_count_other) blast
    with False show ?thesis by auto
  next
    case True
    then obtain r out where e: "e = Settle r out" by blast
    show ?thesis
    proof (cases "map_of (pending s) r")
      case None
      with save_awaited_iff [OF ok, of r] have "\<not> ?save r" by simp
      with e None show ?thesis by (auto simp: refresh_count_unawaited)
    next
      case (Some k)
      from save_awaited_iff [OF ok, of r] Some
      have "?save r \<longleftrightarrow> k = Debounce_save \<or> k = Close_save" by simp
      with e refresh_count_settle [OF rv Some, of out] show ?thesis by auto
    qed
  qed
  have fail: "emitted s (Settle r Rejected) =
                [Settled r Rejected, ConsoleError ''Failed to save note:'']
              \<or> emitted s (Settle r Rejected) =
                [Settled r Rejected, ConsoleError ''Failed to save note on close:'',
                 Invoke (nextCall s) WindowClose]"
    if "Invoke r (SaveNote i c) \<in> set (trace s)" "\<forall>out. Settled r out \<notin> set (trace s)"
  proof -
    from that save_awaited_iff [OF ok, of r]
    have "map_of (pending s) r = Some Debounce_save \<or> map_of (pending s) r = Some Close_save"
      by blast
    then show ?thesis using emitted_save_rejected [of s r] by blast
  qed
  show ?thesis
  proof (intro conjI impI)
    have "(\<exists>r i c. e = Settle r (Resolved Unit) \<and> Invoke r (SaveNote i c) \<in> set (trace s)
                 \<and> (\<forall>out. Settled r out \<notin> set (trace s)))
          \<longleftrightarrow> (\<exists>r. e = Settle r (Resolved Unit) \<and> ?save r)" by blast
    with count show "length (filter isRefresh (emitted s e)) =
           (if \<exists>r i c. e = Settle r (Resolved Unit) \<and> Invoke r (SaveNote i c) \<in> set (trace s)
                 \<and> (\<forall>out. Settled r out \<notin> set (trace s))
            then 1 else 0)" by simp
  next
    assume "Invoke r (SaveNote i c) \<in> set (trace s) \<and> (\<forall>out. Settled r out \<notin> set (trace s))"
    then show "emitted s (Settle r Rejected) =
                [Settled r Rejected, ConsoleError ''Failed to save note:'']
              \<or> emitted s (Settle r Rejected) =
                [Settled r Rejected, ConsoleError ''Failed to save note on close:'',
                 Invoke (nextCall s) WindowClose]" using fail by blast
  qed
qed


theorem refresh_iff_save_succeeded_witness:
  "length (filter isRefresh (emitted
      (run (mounted AppVue ''note-42'' [] []) [MarkdownUpdated ''Hello'', Tick 1000, TimerFires 1])
      (Settle 0 (Resolved Unit)))) = 1
   \<and> emitted
      (run (mounted AppVue ''note-42'' [] []) [MarkdownUpdated ''Hello'', Tick 1000, TimerFires 1])
      (Settle 0 Rejected) = [Settled 0 Rejected, ConsoleError ''Failed to save note:'']"
  using refresh_iff_save_succeeded [of _ "''note-42''" "[]" "[]" 
     "[MarkdownUpdated ''Hello'', Tick 1000, TimerFires 1]" "Settle 0 (Resolved Unit)" 0 "''42''" "''Hello''", OF refl]
  by (simp add: fired_once eval_defs)

subsection \<open>Which call a continuation answers\<close>

lemma awaited_by:
  assumes "calls_ok s" "Invoke r c \<in> set (trace s)" "\<forall>out. Settled r out \<notin> set (trace s)"
  shows "\<exists>k. map_of (pending s) r = Some k \<and> awaits k c"
proof -
  from assms obtain k where k: "(r, k) \<in> set (pending s)"
    unfolding calls_ok_def callsOK_def by blast
  from assms(1) k obtain c' where c': "Invoke r c' \<in> set (trace s)" "awaits k c'"
    unfolding calls_ok_def callsOK_def by blast
  from assms(1,2) c'(1) have "c' = c"
    unfolding calls_ok_def callsOK_def by blast
  with k c'(2) assms(1) show ?thesis
    by (auto simp: calls_ok_def callsOK_map_of)
qed

lemma awaiting:
  assumes "calls_ok s" "map_of (pending s) r = Some k"
  shows "(\<exists>c. Invoke r c \<in> set (trace s) \<and> awaits k c) \<and> (\<forall>out. Settled r out \<notin> set (trace s))"
proof -
  from assms(2) have "(r, k) \<in> set (pending s)" by (rule map_of_SomeD)
  with assms(1) show ?thesis unfolding calls_ok_def callsOK_def by blast
qed

lemma fetch_awaited_iff:
  assumes "calls_ok s"
  shows "Invoke r GetAllNotes \<in> set (trace s) \<and> (\<forall>out. Settled r out \<notin> set (trace s))
         \<longleftrightarrow> map_of (pending s) r = Some Fetch_list"
proof
  assume "Invoke r GetAllNotes \<in> set (trace s) \<and> (\<forall>out. Settled r out \<notin> set (trace s))"
  with awaited_by [OF assms, of r GetAllNotes]
  obtain k where k: "map_of (pending s) r = Some k" "awaits k GetAllNotes" by blast
  from k(2) have "k = Fetch_list" by (cases k) auto
  with k(1) show "map_of (pending s) r = Some Fetch_list" by simp
next
  assume "map_of (pending s) r = Some Fetch_list"
  from awaiting [OF assms this]
  show "Invoke r GetAllNotes \<in> set (trace s) \<and> (\<forall>out. Settled r out \<notin> set (trace s))" by auto
qed

subsection \<open>The summary list\<close>

lemma allNotes_resume:
  "allNotes (resume k out s) \<noteq> allNotes s \<Longrightarrow> k = Fetch_list \<and> (\<exists>ns. out = Resolved (Notes ns))"
  by (cases "(k, out, s)" rule: resume.cases) (auto simp: handler_defs Let_def split: if_splits)

lemma allNotes_step:
  assumes "allNotes (step s e) \<noteq> allNotes s"
  shows "\<exists>r ns. e = Settle r (Resolved (Notes ns)) \<and> map_of (pending s) r = Some Fetch_list"
proof (cases e)
  case (Settle r out)
  show ?thesis
  proof (cases "map_of (pending s) r")
    case None
    with Settle assms show ?thesis by simp
  next
    case (Some k)
    let ?s = "s\<lparr>pending := filter (\<lambda>p. fst p \<noteq> r) (pending s), trace := trace s @ [Settled r out]\<rparr>"
    from assms Settle Some have "allNotes (resume k out ?s) \<noteq> allNotes ?s"
      by (auto split: if_splits)
    from allNotes_resume [OF this] Settle Some show ?thesis by auto
  qed
qed (use assms in \<open>auto simp: handler_defs Let_def split: option.splits if_splits\<close>)

lemma fetch_settles:
  assumes "map_of (pending s) r = Some Fetch_list"
  shows "allNotes (step s (Settle r Rejected)) = allNotes s"
    and "emitted s (Settle r Rejected) = [Settled r Rejected, ConsoleError ''Failed to fetch notes:'']"
    and "allNotes (step s (Settle r (Resolved (Notes ns)))) = ns"
  using assms by (auto simp: emitted_def handler_defs)

text \<open>
  C9. When the \<^verbatim>\<open>get_all_notes\<close> call of a refresh fails, the dashboard keeps the list
  it had and only writes the error to the console. The list changes in one way only:
  an outstanding \<^verbatim>\<open>get_all_notes\<close> call resolves, and its result replaces the list.
\<close>

theorem failed_fetch_keeps_list:
  assumes "s = run (mounted AppVue label saved notes) evs"
  shows "(Invoke r GetAllNotes \<in> set (trace s) \<and> (\<forall>out. Settled r out \<notin> set (trace s)) \<longrightarrow>
            allNotes (step s (Settle r Rejected)) = allNotes s
            \<and> emitted s (Settle r Rejected) =
                [Settled r Rejected, ConsoleError ''Failed to fetch notes:'']
            \<and> allNotes (step s (Settle r (Resolved (Notes ns)))) = ns)
         \<and> (allNotes (step s e) \<noteq> allNotes s \<longrightarrow>
              (\<exists>r ns. e = Settle r (Resolved (Notes ns)) \<and> Invoke r GetAllNotes \<in> set (trace s)
                 \<and> (\<forall>out. Settled r out \<notin> set (trace s))))"
proof -
  have ok: "calls_ok s"
    using assms calls_ok_run [OF calls_ok_mounted] by simp
  show ?thesis
  proof (intro conjI impI)
    assume a: "Invoke r GetAllNotes \<in> set (trace s) \<and> (\<forall>out. Settled r out \<notin> set (trace s))"
    then have p: "map_of (pending s) r = Some Fetch_list"
      using fetch_awaited_iff [OF ok, of r] by simp
    from fetch_settles [OF p]
    show "allNotes (step s (Settle r Rejected)) = allNotes s"
      and "emitted s (Settle r Rejected) = [Settled r Rejected, ConsoleError ''Failed to fetch notes:'']"
      and "allNotes (step s (Settle r (Resolved (Notes ns)))) = ns"
      by blast+
  next
    assume "allNotes (step s e) \<noteq> allNotes s"
    from allNotes_step [OF this] obtain r' ns' where
      e: "e = Settle r' (Resolved (Notes ns'))" and p: "map_of (pending s) r' = Some Fetch_list"
      by blast
    from p fetch_awaited_iff [OF ok, of r']
    have "Invoke r' GetAllNotes \<in> set (trace s) \<and> (\<forall>out. Settled r' out \<notin> set (trace s))" by simp
    with e show "\<exists>r ns. e = Settle r (Resolved (Notes ns)) \<and> Invoke r GetAllNotes \<in> set (trace s)
                 \<and> (\<forall>out. Settled r out \<notin> set (trace s))" by blast
  qed
qed

theorem failed_fetch_keeps_list_witness:
  "allNotes (step (run (mounted AppVue ''main'' [] [\<lparr>id_note = ''7'', preview = ''milk''\<rparr>]) [ClickRefresh])
       (Settle 0 Rejected)) = [\<lparr>id_note = ''7'', preview = ''milk''\<rparr>]
   \<and> emitted (run (mounted AppVue ''main'' [] [\<lparr>id_note = ''7'', preview = ''milk''\<rparr>]) [ClickRefresh])
       (Settle 0 Rejected) = [Settled 0 Rejected, ConsoleError ''Failed to fetch notes:'']
   \<and> allNotes (step (run (mounted AppVue ''main'' [] [\<lparr>id_note = ''7'', preview = ''milk''\<rparr>]) [ClickRefresh])
       (Settle 0 (Resolved (Notes [])))) = []"
  using failed_fetch_keeps_list [of _ "''main''" "[]" "[\<lparr>id_note = ''7'', preview = ''milk''\<rparr>]"
      "[ClickRefresh]" 0 "[]" "Tick 0", OF refl]
  by (simp add: eval_defs)

subsection \<open>Settling a call that was just issued\<close>

lemma calls_ok_fresh: "calls_ok s \<Longrightarrow> nextCall s \<le> r \<Longrightarrow> map_of (pending s) r = None"
proof (cases "map_of (pending s) r")
  case (Some k)
  assume "calls_ok s" "nextCall s \<le> r"
  moreover from Some have "(r, k) \<in> set (pending s)" by (rule map_of_SomeD)
  ultimately show ?thesis unfolding calls_ok_def callsOK_def by fastforce
qed simp

lemma unawaited_filter:
  "map_of ps r = None \<Longrightarrow> filter (\<lambda>p. fst p \<noteq> r) ps = ps"
  by (induction ps) (auto split: if_splits)

lemma map_of_remove:
  "map_of (filter (\<lambda>p. fst p \<noteq> r) ps) r' = (if r' = r then None else map_of ps r')"
  by (induction ps) auto

lemma settle_after_invoke:
  assumes "map_of (pending s) (nextCall s) = None" "accepts k out"
  shows "step (invoke c k s) (Settle (nextCall s) out) =
           resume k out (s\<lparr>nextCall := Suc (nextCall s),
             trace := trace s @ [Invoke (nextCall s) c, Settled (nextCall s) out]\<rparr>)"
  using assms by (simp add: invoke_def map_add_def unawaited_filter)

lemma calls_ok_reachable: "calls_ok (run (mounted r label saved notes) evs)"
  by (rule calls_ok_run [OF calls_ok_mounted])

subsection \<open>Overlapping refreshes\<close>

text \<open>
  C6, as the code has it. \<^verbatim>\<open>fetchNotes\<close> stores whatever a response carries, and
  nothing orders the responses. When the dashboard is asked to refresh twice (by the
  refresh control or by a \<^verbatim>\<open>refresh-notes\<close> event) before either call has settled, the
  list it shows after both have resolved is the one carried by the response that came
  last: the later call's when the responses come in the order of the calls, the earlier
  call's when they come the other way round.
\<close>

theorem last_response_wins:
  assumes "s = run (mounted AppVue label saved notes) evs" "isDashboard s"
    and "e1 = ClickRefresh \<or> e1 = RefreshNotesEvent" "e2 = ClickRefresh \<or> e2 = RefreshNotesEvent"
  shows "emitted s e1 = [Invoke (nextCall s) GetAllNotes]
         \<and> emitted (step s e1) e2 = [Invoke (Suc (nextCall s)) GetAllNotes]
         \<and> allNotes (run s [e1, e2, Settle (nextCall s) (Resolved (Notes xs)),
                                    Settle (Suc (nextCall s)) (Resolved (Notes ys))]) = ys
         \<and> allNotes (run s [e1, e2, Settle (Suc (nextCall s)) (Resolved (Notes ys)),
                                    Settle (nextCall s) (Resolved (Notes xs))]) = xs"
proof -
  have ok: "calls_ok s" using assms(1) calls_ok_reachable by simp
  have f0: "map_of (pending s) (nextCall s) = None"
    and f1: "map_of (pending s) (Suc (nextCall s)) = None"
    using calls_ok_fresh [OF ok] by auto
  show ?thesis
    using assms(2-4) f0 f1
    by (auto simp: emitted_def handler_defs map_add_def map_of_remove)
qed

theorem last_response_wins_witness:
  "allNotes (run (run (mounted AppVue ''main'' [] []) [])
      [ClickRefresh, RefreshNotesEvent,
       Settle 0 (Resolved (Notes [\<lparr>id_note = ''7'', preview = ''old''\<rparr>])),
       Settle 1 (Resolved (Notes [\<lparr>id_note = ''7'', preview = ''new''\<rparr>]))])
     = [\<lparr>id_note = ''7'', preview = ''new''\<rparr>]
   \<and> allNotes (run (run (mounted AppVue ''main'' [] []) [])
      [ClickRefresh, RefreshNotesEvent,
       Settle 1 (Resolved (Notes [\<lparr>id_note = ''7'', preview = ''new''\<rparr>])),
       Settle 0 (Resolved (Notes [\<lparr>id_note = ''7'', preview = ''old''\<rparr>]))])
     = [\<lparr>id_note = ''7'', preview = ''old''\<rparr>]"
proof -
  have d: "isDashboard (run (mounted AppVue ''main'' [] []) [])"
    by (simp add: eval_defs)
  have n: "nextCall (run (mounted AppVue ''main'' [] []) []) = 0"
    by (simp add: eval_defs)
  show ?thesis
    using last_response_wins [OF refl d, of ClickRefresh RefreshNotesEvent
        "[\<lparr>id_note = ''7'', preview = ''old''\<rparr>]" "[\<lparr>id_note = ''7'', preview = ''new''\<rparr>]"]
    unfolding n by simp
qed

text \<open>
  C6, as stated, fails: two refreshes, the response to the second arrives first, and the
  response to the first then overwrites it. The list ends up showing the older request's
  result.
\<close>

theorem older_response_overwrites:
  "allNotes (run (mounted AppVue ''main'' [] [])
      [ClickRefresh, ClickRefresh,
       Settle 1 (Resolved (Notes [\<lparr>id_note = ''7'', preview = ''new''\<rparr>])),
       Settle 0 (Resolved (Notes [\<lparr>id_note = ''7'', preview = ''old''\<rparr>]))])
     = [\<lparr>id_note = ''7'', preview = ''old''\<rparr>]"
  by (simp add: eval_defs)

subsection \<open>Deleting a note\<close>

lemma fetch_only_on_refresh:
  "Invoke r GetAllNotes \<in> set (emitted s e) \<Longrightarrow> e = ClickRefresh \<or> e = RefreshNotesEvent"
proof (cases e)
  case (Settle r' out)
  assume a: "Invoke r GetAllNotes \<in> set (emitted s e)"
  show ?thesis
  proof (cases "map_of (pending s) r'")
    case None
    with a Settle show ?thesis by (simp add: emitted_def)
  next
    case (Some k)
    with a Settle show ?thesis
      by (cases "(k, out, s)" rule: resume.cases)
         (auto simp: emitted_def handler_defs Let_def split: if_splits)
  qed
qed (auto simp: emitted_def handler_defs Let_def split: option.splits if_splits)

text \<open>
  C8, as the code has it. Once the user has confirmed, \<^verbatim>\<open>deleteNote\<close> issues the
  \<^verbatim>\<open>delete_note\<close> call and nothing else; without confirmation it does nothing. When the
  call settles the handler is finished (a failure is written to the console): the summary
  list is left as it was. In every state, \<^verbatim>\<open>get_all_notes\<close> is only ever issued by the
  refresh control and by a \<^verbatim>\<open>refresh-notes\<close> event.
\<close>

theorem delete_leaves_list_alone:
  assumes "s = run (mounted AppVue label saved notes) evs" "isDashboard s" "listed i s"
  shows "emitted s (ClickDelete i True) = [Invoke (nextCall s) (DeleteNote i)]
         \<and> step s (ClickDelete i False) = s
         \<and> emitted (step s (ClickDelete i True)) (Settle (nextCall s) (Resolved Unit))
             = [Settled (nextCall s) (Resolved Unit)]
         \<and> emitted (step s (ClickDelete i True)) (Settle (nextCall s) Rejected)
             = [Settled (nextCall s) Rejected, ConsoleError ''Failed to delete note:'']
         \<and> allNotes (run s [ClickDelete i True, Settle (nextCall s) out]) = allNotes s
         \<and> (\<forall>t e r. Invoke r GetAllNotes \<in> set (emitted t e) \<longrightarrow>
               e = ClickRefresh \<or> e = RefreshNotesEvent)"
proof -
  have ok: "calls_ok s" using assms(1) calls_ok_reachable by simp
  have f0: "map_of (pending s) (nextCall s) = None"
    using calls_ok_fresh [OF ok] by auto
  have d: "step s (ClickDelete i True) = invoke (DeleteNote i) Delete_cmd s"
    using assms(2,3) by (simp add: deleteNote_def)
  have 1: "emitted s (ClickDelete i True) = [Invoke (nextCall s) (DeleteNote i)]"
    unfolding emitted_def d by (simp add: invoke_def)
  have 2: "step s (ClickDelete i False) = s"
    by (simp add: deleteNote_def)
  have 3: "emitted (step s (ClickDelete i True)) (Settle (nextCall s) (Resolved Unit))
             = [Settled (nextCall s) (Resolved Unit)]"
    unfolding emitted_def d by (subst settle_after_invoke [OF f0]; simp add: invoke_def)
  have 4: "emitted (step s (ClickDelete i True)) (Settle (nextCall s) Rejected)
             = [Settled (nextCall s) Rejected, ConsoleError ''Failed to delete note:'']"
    unfolding emitted_def d by (subst settle_after_invoke [OF f0]; simp add: invoke_def emit_def)
  have 5: "allNotes (run s [ClickDelete i True, Settle (nextCall s) out]) = allNotes s"
  proof (cases "accepts Delete_cmd out")
    case True
    then show ?thesis
      unfolding run_Cons run_Nil d
      by (subst settle_after_invoke [OF f0], simp, cases out) (auto simp: emit_def)
  next
    case False
    then show ?thesis
      unfolding run_Cons run_Nil d
      by (simp add: invoke_def map_add_def f0)
  qed
  from 1 2 3 4 5 show ?thesis using fetch_only_on_refresh by blast
qed

theorem delete_leaves_list_alone_witness:
  "isDashboard (run (mounted AppVue ''main'' [] [\<lparr>id_note = ''7'', preview = ''milk''\<rparr>]) [])
   \<and> listed ''7'' (run (mounted AppVue ''main'' [] [\<lparr>id_note = ''7'', preview = ''milk''\<rparr>]) [])
   \<and> emitted (run (mounted AppVue ''main'' [] [\<lparr>id_note = ''7'', preview = ''milk''\<rparr>]) [])
        (ClickDelete ''7'' True) = [Invoke 0 (DeleteNote ''7'')]
   \<and> allNotes (run (run (mounted AppVue ''main'' [] [\<lparr>id_note = ''7'', preview = ''milk''\<rparr>]) [])
        [ClickDelete ''7'' True, Settle 0 (Resolved Unit)]) = [\<lparr>id_note = ''7'', preview = ''milk''\<rparr>]"
proof -
  let ?s = "run (mounted AppVue ''main'' [] [\<lparr>id_note = ''7'', preview = ''milk''\<rparr>]) []"
  have d: "isDashboard ?s" by (simp add: eval_defs)
  have l: "listed ''7'' ?s" by (simp add: eval_defs)
  have n: "nextCall ?s = 0" "allNotes ?s = [\<lparr>id_note = ''7'', preview = ''milk''\<rparr>]"
    by (simp_all add: eval_defs)
  show ?thesis
    using d l delete_leaves_list_alone [OF refl d l, of "Resolved Unit"]
    unfolding n by simp
qed

text \<open>
  C8, as stated, fails: the note is deleted with the user's confirmation and the call
  succeeds, yet no \<^verbatim>\<open>get_all_notes\<close> call follows and the list still shows the note.
\<close>

theorem delete_without_refresh:
  "trace (run (mounted AppVue ''main'' [] [\<lparr>id_note = ''7'', preview = ''milk''\<rparr>])
      [ClickDelete ''7'' True, Settle 0 (Resolved Unit)])
     = [Invoke 0 (DeleteNote ''7''), Settled 0 (Resolved Unit)]
   \<and> allNotes (run (mounted AppVue ''main'' [] [\<lparr>id_note = ''7'', preview = ''milk''\<rparr>])
      [ClickDelete ''7'' True, Settle 0 (Resolved Unit)])
     = [\<lparr>id_note = ''7'', preview = ''milk''\<rparr>]"
  by (simp add: eval_defs)

subsection \<open>Creating a note\<close>

lemma creating_snoc [simp]:
  "creating (ps @ [(n, k)]) = (if k = Create_cmd then creating ps @ [(n, k)] else creating ps)"
  by (simp add: creating_def)

lemma creating_resume:
  "k \<noteq> Create_cmd \<Longrightarrow>
     isCreatingNote (resume k out s) = isCreatingNote s
     \<and> creating (pending (resume k out s)) = creating (pending s)"
  "\<not> isCreatingNote (resume Create_cmd out s)
     \<and> pending (resume Create_cmd out s) = pending s"
  by (cases "(k, out, s)" rule: resume.cases; auto simp: handler_defs Let_def)
     (cases "(Create_cmd, out, s)" rule: resume.cases; auto simp: handler_defs Let_def)

lemma creating_remove_other:
  assumes "distinct (map fst ps)" "(r, k) \<in> set ps" "k \<noteq> Create_cmd"
  shows "creating (filter (\<lambda>p. fst p \<noteq> r) ps) = creating ps"
proof -
  have "fst p \<noteq> r" if "p \<in> set ps" "snd p = Create_cmd" for p
  proof
    assume "fst p = r"
    with that(2) have "p = (r, Create_cmd)" by (cases p) simp
    with that(1) have "(r, Create_cmd) \<in> set ps" by simp
    with assms(1,2) have "k = Create_cmd" by (meson eq_key_imp_eq_value)
    with assms(3) show False by simp
  qed
  then have "filter (\<lambda>p. snd p = Create_cmd) (filter (\<lambda>p. fst p \<noteq> r) ps)
             = filter (\<lambda>p. snd p = Create_cmd) ps"
    unfolding filter_filter by (intro filter_cong) auto
  then show ?thesis by (simp add: creating_def)
qed

lemma creating_remove_only:
  assumes "length (creating ps) \<le> 1" "(r, Create_cmd) \<in> set ps"
  shows "creating (filter (\<lambda>p. fst p \<noteq> r) ps) = []"
proof -
  from assms(2) have m: "(r, Create_cmd) \<in> set (creating ps)" by (simp add: creating_def)
  with assms(1) have "creating ps = [(r, Create_cmd)]"
    by (cases "creating ps") auto
  moreover have "creating (filter (\<lambda>p. fst p \<noteq> r) ps) = filter (\<lambda>p. fst p \<noteq> r) (creating ps)"
    unfolding creating_def filter_filter by (intro filter_cong) auto
  ultimately show ?thesis by simp
qed

lemma creating_ok_step:
  assumes "calls_ok s" "creating_ok s"
  shows "creating_ok (step s e)"
proof (cases e)
  case (Settle r out)
  show ?thesis
  proof (cases "map_of (pending s) r")
    case None
    with Settle assms show ?thesis by simp
  next
    case (Some k)
    let ?s = "s\<lparr>pending := filter (\<lambda>p. fst p \<noteq> r) (pending s), trace := trace s @ [Settled r out]\<rparr>"
    have m: "(r, k) \<in> set (pending s)" using Some by (rule map_of_SomeD)
    have d: "distinct (map fst (pending s))"
      using assms(1) unfolding calls_ok_def callsOK_def by blast
    show ?thesis
    proof (cases "accepts k out")
      case False
      with Settle Some assms show ?thesis by simp
    next
      case True
      show ?thesis
      proof (cases "k = Create_cmd")
        case True
        have "length (creating (pending s)) \<le> 1"
          using assms(2) by (simp add: creating_ok_def split: if_splits)
        from creating_remove_only [OF this] m True
        have "creating (pending ?s) = []" by simp
        with True \<open>accepts k out\<close> Settle Some creating_resume(2) [of out ?s]
        show ?thesis by (simp add: creating_ok_def)
      next
        case False
        from creating_remove_other [OF d m False]
        have "creating (pending ?s) = creating (pending s)" by simp
        with False \<open>accepts k out\<close> Settle Some creating_resume(1) [OF False, of out ?s] assms(2)
        show ?thesis by (simp add: creating_ok_def)
      qed
    qed
  qed
qed (use assms in \<open>auto simp: creating_ok_def handler_defs Let_def split: option.splits\<close>)

lemma creating_ok_reachable: "creating_ok (run (mounted r label saved notes) evs)"
proof -
  have "calls_ok (run s evs) \<and> creating_ok (run s evs)" if "calls_ok s" "creating_ok s" for s
    using that
  proof (induction evs arbitrary: s)
    case Nil
    then show ?case by simp
  next
    case (Cons e evs)
    from Cons.IH [OF calls_ok_step [OF Cons.prems(1)] creating_ok_step [OF Cons.prems]]
    show ?case by simp
  qed
  moreover have "creating_ok (mounted r label saved notes)"
    by (simp add: creating_ok_def creating_def mounted_def Let_def)
  ultimately show ?thesis using calls_ok_mounted by blast
qed


lemma since_refl [simp]: "since s s = []"
  by (simp add: since_def)

lemma since_step [simp]: "since s (step s e) = emitted s e"
  by (simp add: since_def emitted_def)

lemma since_run_Cons:
  "since s (run (step s e) evs) = emitted s e @ since (step s e) (run (step s e) evs)"
proof -
  obtain l where l: "trace (run (step s e) evs) = trace (step s e) @ l"
    using trace_run_ex by blast
  have "since (step s e) (run (step s e) evs) = l"
    by (simp add: since_def l)
  moreover have "since s (run (step s e) evs) = emitted s e @ l"
    by (simp add: since_def l trace_step)
  ultimately show ?thesis by simp
qed

lemma two_creating:
  assumes "(r, Create_cmd) \<in> set ps" "(n, Create_cmd) \<in> set ps" "r \<noteq> n"
  shows "2 \<le> length (creating ps)"
proof -
  have "{(r, Create_cmd), (n, Create_cmd)} \<subseteq> set (creating ps)"
    using assms by (auto simp: creating_def)
  then have "card {(r, Create_cmd), (n, Create_cmd)} \<le> card (set (creating ps))"
    by (intro card_mono) auto
  also have "\<dots> \<le> length (creating ps)" by (rule card_length)
  finally show ?thesis using assms(3) by simp
qed

lemma settle_other_keeps_create:
  assumes "map_of (pending t) r = Some k" "k \<noteq> Create_cmd" "r \<noteq> n"
    and "map_of (pending t) n = Some Create_cmd" "isCreatingNote t"
  shows "map_of (pending (step t (Settle r out))) n = Some Create_cmd
         \<and> isCreatingNote (step t (Settle r out))
         \<and> filter isCreate (emitted t (Settle r out)) = []"
  using assms
  by (cases "(k, out, t)" rule: resume.cases)
     (auto simp: emitted_def handler_defs Let_def map_of_remove map_add_def)

lemma create_in_flight_step:
  assumes "calls_ok t" "creating_ok t" "map_of (pending t) n = Some Create_cmd" "isCreatingNote t"
    and "\<forall>out. e \<noteq> Settle n out"
  shows "map_of (pending (step t e)) n = Some Create_cmd \<and> isCreatingNote (step t e)
         \<and> filter isCreate (emitted t e) = []"
proof (cases e)
  case (Settle r out)
  with assms(5) have rn: "r \<noteq> n" by auto
  show ?thesis
  proof (cases "map_of (pending t) r")
    case None
    with Settle assms show ?thesis by (simp add: emitted_def)
  next
    case (Some k)
    have "k \<noteq> Create_cmd"
    proof
      assume "k = Create_cmd"
      with Some assms(3) have "(r, Create_cmd) \<in> set (pending t)" "(n, Create_cmd) \<in> set (pending t)"
        by (auto dest: map_of_SomeD)
      from two_creating [OF this rn] assms(2,4) show False by (simp add: creating_ok_def)
    qed
    from settle_other_keeps_create [OF Some this rn assms(3,4)] Settle show ?thesis by simp
  qed
qed (use assms in \<open>auto simp: emitted_def handler_defs Let_def map_add_def split: option.splits\<close>)

lemma create_in_flight_run:
  assumes "calls_ok t" "creating_ok t" "map_of (pending t) n = Some Create_cmd" "isCreatingNote t"
    and "\<forall>out. Settle n out \<notin> set evs"
  shows "map_of (pending (run t evs)) n = Some Create_cmd \<and> isCreatingNote (run t evs)
         \<and> filter isCreate (since t (run t evs)) = []"
  using assms
proof (induction evs arbitrary: t)
  case Nil
  then show ?case by simp
next
  case (Cons e evs)
  from Cons.prems(5) have e: "\<forall>out. e \<noteq> Settle n out" and evs: "\<forall>out. Settle n out \<notin> set evs"
    by auto
  from create_in_flight_step [OF Cons.prems(1-4) e]
  have 1: "map_of (pending (step t e)) n = Some Create_cmd" "isCreatingNote (step t e)"
    "filter isCreate (emitted t e) = []" by blast+
  from Cons.IH [OF calls_ok_step [OF Cons.prems(1)] creating_ok_step [OF Cons.prems(1,2)] 1(1,2) evs]
    1(3)
  show ?case by (simp add: since_run_Cons)
qed

text \<open>
  C7. \<^verbatim>\<open>createNewNote\<close> is guarded by the flag \<open>isCreatingNote\<close>. When the flag is clear, a
  click on the control issues one \<^verbatim>\<open>create_new_note_cmd\<close> call and sets the flag. Until
  that call settles, whatever else happens, the flag stays set, no further create call
  is issued, and another click changes nothing at all; so two clicks before the first
  call has settled create one note. When the call settles, resolved or rejected, the
  flag is cleared.
\<close>

theorem create_guarded_by_flag:
  assumes "s = run (mounted AppVue label saved notes) evs0" "isDashboard s" "\<not> isCreatingNote s"
    and "\<forall>out. Settle (nextCall s) out \<notin> set evs"
  shows "emitted s ClickNewNote = [Invoke (nextCall s) CreateNewNoteCmd]
         \<and> filter isCreate (since (step s ClickNewNote) (run (step s ClickNewNote) evs)) = []
         \<and> isCreatingNote (run (step s ClickNewNote) evs)
         \<and> step (run (step s ClickNewNote) evs) ClickNewNote = run (step s ClickNewNote) evs
         \<and> \<not> isCreatingNote (step (run (step s ClickNewNote) evs) (Settle (nextCall s) (Resolved Unit)))
         \<and> \<not> isCreatingNote (step (run (step s ClickNewNote) evs) (Settle (nextCall s) Rejected))"
proof -
  let ?t = "step s ClickNewNote"
  let ?u = "run ?t evs"
  have ok: "calls_ok s" "creating_ok s"
    using assms(1) calls_ok_reachable creating_ok_reachable by simp_all
  have t: "?t = invoke CreateNewNoteCmd Create_cmd (s\<lparr>isCreatingNote := True\<rparr>)"
    using assms(2,3) by (simp add: createNewNote_def)
  have f0: "map_of (pending s) (nextCall s) = None"
    using calls_ok_fresh [OF ok(1)] by simp
  have 1: "emitted s ClickNewNote = [Invoke (nextCall s) CreateNewNoteCmd]"
    unfolding emitted_def t by (simp add: invoke_def)
  have p: "map_of (pending ?t) (nextCall s) = Some Create_cmd" "isCreatingNote ?t"
    unfolding t using f0 by (simp_all add: invoke_def map_add_def)
  from create_in_flight_run [OF calls_ok_step [OF ok(1)] creating_ok_step [OF ok] p assms(4)]
  have u: "map_of (pending ?u) (nextCall s) = Some Create_cmd" "isCreatingNote ?u"
    "filter isCreate (since ?t ?u) = []" by blast+
  have d: "isDashboard ?u"
    using assms(2) fixed_run [of ?t evs] fixed_step [of s ClickNewNote] by simp
  have 4: "step ?u ClickNewNote = ?u" using u(2) d by (simp add: createNewNote_def)
  have 5: "\<not> isCreatingNote (step ?u (Settle (nextCall s) (Resolved Unit)))"
    using u(1) by (simp add: creating_resume(2))
  have 6: "\<not> isCreatingNote (step ?u (Settle (nextCall s) Rejected))"
    using u(1) by (simp add: creating_resume(2))
  from 1 u(2,3) 4 5 6 show ?thesis by blast
qed

theorem create_guarded_by_flag_witness:
  "emitted (run (mounted AppVue ''main'' [] []) [Tick 3]) ClickNewNote = [Invoke 0 CreateNewNoteCmd]
   \<and> trace (run (step (run (mounted AppVue ''main'' [] []) [Tick 3]) ClickNewNote)
        [ClickNewNote, ClickRefresh, ClickNewNote]) = [Invoke 0 CreateNewNoteCmd, Invoke 1 GetAllNotes]
   \<and> \<not> isCreatingNote (step (run (step (run (mounted AppVue ''main'' [] []) [Tick 3]) ClickNewNote)
        [ClickNewNote, ClickRefresh, ClickNewNote]) (Settle 0 Rejected))"
proof -
  let ?s = "run (mounted AppVue ''main'' [] []) [Tick 3]"
  have d: "isDashboard ?s" by (simp add: eval_defs)
  have c: "\<not> isCreatingNote ?s" by (simp add: eval_defs)
  have n: "nextCall ?s = 0" by (simp add: eval_defs)
  have e: "\<forall>out. Settle (nextCall ?s) out \<notin> set [ClickNewNote, ClickRefresh, ClickNewNote]"
    by simp
  have t: "trace (run (step ?s ClickNewNote) [ClickNewNote, ClickRefresh, ClickNewNote])
             = [Invoke 0 CreateNewNoteCmd, Invoke 1 GetAllNotes]"
    by (simp add: eval_defs)
  from create_guarded_by_flag [OF refl d c e] t show ?thesis
    unfolding n by blast
qed

subsection \<open>Timers and the slot\<close>

lemma timersOK_remove:
  "timersOK ts n slot content \<Longrightarrow> timersOK (filter (\<lambda>t. fst t \<noteq> h) ts) n slot content"
  unfolding timersOK_def by (auto simp: distinct_map_filter)

lemma timersOK_empty: "timersOK ts n slot content \<Longrightarrow> timersOK ts n None content'"
  unfolding timersOK_def by auto

lemma timersOK_schedule:
  assumes "timersOK ts n slot content"
  shows "timersOK (ts @ [(n, d, content')]) (Suc n) (Some n) content'"
proof -
  from assms have n: "0 < n" and lt: "\<And>t. t \<in> set ts \<Longrightarrow> fst t < n"
    and d: "distinct (map fst ts)"
    unfolding timersOK_def by auto
  have fresh: "(n, d', c) \<notin> set ts" for d' c using lt [of "(n, d', c)"] by auto
  then have "n \<notin> fst ` set ts" by force
  with n lt d fresh show ?thesis
    unfolding timersOK_def by (auto simp: less_Suc_eq)
qed

lemma timers_resume:
  "timers (resume k out s) = timers s \<and> nextTimer (resume k out s) = nextTimer s
   \<and> currentContent (resume k out s) = currentContent s \<and> now (resume k out s) = now s
   \<and> (saveTimeout (resume k out s) = saveTimeout s \<or> saveTimeout (resume k out s) = None)"
  by (cases "(k, out, s)" rule: resume.cases) (auto simp: handler_defs Let_def)

lemma timers_ok_resume:
  assumes "timers_ok s"
  shows "timers_ok (resume k out s)"
  using assms timers_resume [of k out s] timersOK_empty
  unfolding timers_ok_def by metis

lemma debounceSave_empty:
  assumes "saveTimeout s = None"
  shows "debounceSave c s =
           s\<lparr>timers := timers s @ [(nextTimer s, now s + 1000, c)],
             nextTimer := Suc (nextTimer s),
             saveTimeout := Some (nextTimer s),
             trace := trace s @ [SetTimeout (nextTimer s) 1000]\<rparr>"
  using assms by (simp add: debounceSave_def Let_def)

lemma debounceSave_replace:
  assumes "saveTimeout s = Some h" "h \<noteq> 0"
  shows "debounceSave c s =
           s\<lparr>timers := filter (\<lambda>t. fst t \<noteq> h) (timers s) @ [(nextTimer s, now s + 1000, c)],
             nextTimer := Suc (nextTimer s),
             saveTimeout := Some (nextTimer s),
             trace := trace s @ [ClearTimeout h, SetTimeout (nextTimer s) 1000]\<rparr>"
  using assms by (simp add: debounceSave_def clearTimeout_def Let_def)

lemma timers_ok_markdownUpdated:
  assumes "timers_ok s"
  shows "timers_ok (markdownUpdated md s)"
proof (cases "saveTimeout s")
  case None
  from timersOK_schedule [OF assms [unfolded timers_ok_def], of "now s + 1000" md] None
  show ?thesis
    by (simp add: timers_ok_def markdownUpdated_def debounceSave_empty)
next
  case (Some h)
  with assms have h: "h \<noteq> 0" by (auto simp: timers_ok_def timersOK_def)
  from timersOK_schedule [OF timersOK_remove [OF assms [unfolded timers_ok_def], of h],
      of "now s + 1000" md] Some h
  show ?thesis
    by (simp add: timers_ok_def markdownUpdated_def debounceSave_replace)
qed

lemma timers_ok_step: "timers_ok s \<Longrightarrow> timers_ok (step s e)"
proof (cases e)
  case (MarkdownUpdated md)
  assume "timers_ok s"
  with MarkdownUpdated show ?thesis by (simp add: timers_ok_markdownUpdated)
next
  case (Settle r out)
  assume ok: "timers_ok s"
  let ?s = "s\<lparr>pending := filter (\<lambda>p. fst p \<noteq> r) (pending s), trace := trace s @ [Settled r out]\<rparr>"
  have "timers_ok ?s" using ok by (simp add: timers_ok_def)
  from timers_ok_resume [OF this] Settle ok show ?thesis
    by (auto split: option.splits)
next
  case (TimerFires h)
  assume "timers_ok s"
  with TimerFires timersOK_remove show ?thesis
    by (auto simp: timers_ok_def timerCallback_def invoke_def split: option.splits)
next
  case ClickClose
  assume "timers_ok s"
  with ClickClose timersOK_empty [OF timersOK_remove] show ?thesis
    by (auto simp: timers_ok_def closeWindow_def invoke_def clearTimeout_def split: option.splits)
qed (auto simp: timers_ok_def handler_defs Let_def)

lemma timers_ok_reachable: "timers_ok (run (mounted r label saved notes) evs)"
proof -
  have "timers_ok (run s evs)" if "timers_ok s" for s
    using that by (induction evs arbitrary: s) (auto intro: timers_ok_step)
  moreover have "timers_ok (mounted r label saved notes)"
    by (simp add: timers_ok_def timersOK_def mounted_def Let_def)
  ultimately show ?thesis by blast
qed

lemma find_queued:
  assumes "distinct (map fst ts)" "(h, d, c) \<in> set ts"
  shows "find (\<lambda>t. fst t = h) ts = Some (h, d, c)"
  using assms by (induction ts) (auto simp: rev_image_eqI)

lemma fire_queued:
  assumes "timers_ok s" "(h, d, c) \<in> set (timers s)" "d \<le> now s"
  shows "step s (TimerFires h) =
           invoke (SaveNote (noteId s) c) Debounce_save
             (s\<lparr>timers := filter (\<lambda>t. fst t \<noteq> h) (timers s)\<rparr>)"
proof -
  from assms(1) have "distinct (map fst (timers s))"
    by (simp add: timers_ok_def timersOK_def)
  from find_queued [OF this assms(2)] assms(3) show ?thesis
    by (simp add: timerCallback_def)
qed


lemma fired_failed:
  assumes "timers_ok s" "calls_ok s" "(h, d, c) \<in> set (timers s)" "d \<le> now s"
  shows "run s [TimerFires h, Settle (nextCall s) Rejected] =
           s\<lparr>timers := filter (\<lambda>t. fst t \<noteq> h) (timers s),
             nextCall := Suc (nextCall s),
             trace := trace s @ [Invoke (nextCall s) (SaveNote (noteId s) c),
                                 Settled (nextCall s) Rejected,
                                 ConsoleError ''Failed to save note:'']\<rparr>"
proof -
  let ?s0 = "s\<lparr>timers := filter (\<lambda>t. fst t \<noteq> h) (timers s)\<rparr>"
  have f0: "map_of (pending ?s0) (nextCall ?s0) = None"
    using calls_ok_fresh [OF assms(2), of "nextCall s"] by simp
  have "run s [TimerFires h, Settle (nextCall s) Rejected] =
          step (invoke (SaveNote (noteId s) c) Debounce_save ?s0) (Settle (nextCall ?s0) Rejected)"
    unfolding run_Cons run_Nil fire_queued [OF assms(1,3,4)] by simp
  also have "\<dots> = resume Debounce_save Rejected (?s0\<lparr>nextCall := Suc (nextCall ?s0),
             trace := trace ?s0 @ [Invoke (nextCall ?s0) (SaveNote (noteId s) c),
                                   Settled (nextCall ?s0) Rejected]\<rparr>)"
    by (rule settle_after_invoke [OF f0]) simp
  finally show ?thesis by (simp add: emit_def)
qed

lemma fired_saved:
  assumes "timers_ok s" "calls_ok s" "(h, d, c) \<in> set (timers s)" "d \<le> now s"
  shows "run s [TimerFires h, Settle (nextCall s) (Resolved Unit)] =
           (if file_rev s = AppVue
            then s\<lparr>timers := filter (\<lambda>t. fst t \<noteq> h) (timers s),
                   saveTimeout := None,
                   pending := pending s @ [(Suc (nextCall s), Debounce_refresh)],
                   nextCall := Suc (Suc (nextCall s)),
                   trace := trace s @ [Invoke (nextCall s) (SaveNote (noteId s) c),
                                       Settled (nextCall s) (Resolved Unit),
                                       Invoke (Suc (nextCall s)) TriggerRefreshNotes]\<rparr>
            else s\<lparr>timers := filter (\<lambda>t. fst t \<noteq> h) (timers s),
                   saveTimeout := None,
                   nextCall := Suc (nextCall s),
                   trace := trace s @ [Invoke (nextCall s) (SaveNote (noteId s) c),
                                       Settled (nextCall s) (Resolved Unit)]\<rparr>)"
proof -
  let ?s0 = "s\<lparr>timers := filter (\<lambda>t. fst t \<noteq> h) (timers s)\<rparr>"
  have f0: "map_of (pending ?s0) (nextCall ?s0) = None"
    using calls_ok_fresh [OF assms(2), of "nextCall s"] by simp
  have "run s [TimerFires h, Settle (nextCall s) (Resolved Unit)] =
          step (invoke (SaveNote (noteId s) c) Debounce_save ?s0)
            (Settle (nextCall ?s0) (Resolved Unit))"
    unfolding run_Cons run_Nil fire_queued [OF assms(1,3,4)] by simp
  also have "\<dots> = resume Debounce_save (Resolved Unit) (?s0\<lparr>nextCall := Suc (nextCall ?s0),
             trace := trace ?s0 @ [Invoke (nextCall ?s0) (SaveNote (noteId s) c),
                                   Settled (nextCall ?s0) (Resolved Unit)]\<rparr>)"
    by (rule settle_after_invoke [OF f0]) simp
  finally show ?thesis by (simp add: invoke_def Let_def)
qed

lemma slot_content:
  assumes "timers_ok s" "saveTimeout s = Some h" "(h, d, c) \<in> set (timers s)"
  shows "c = currentContent s" "h \<noteq> 0"
  using assms unfolding timers_ok_def timersOK_def by blast+



lemma edited_once:
  "run (mounted AppVue ''note-42'' [] []) [MarkdownUpdated ''Hello'', Tick 1000] =
     \<lparr>file_rev = AppVue, isAlwaysOnTop = False, isDashboard = False, isCreatingNote = False,
      noteId = ''42'', currentContent = ''Hello'', allNotes = [], saveTimeout = Some 1,
      now = 1000, timers = [(1, 1000, ''Hello'')], nextTimer = 2, pending = [],
      nextCall = 0, trace = [SetTimeout 1 1000]\<rparr>"
  by (simp add: eval_defs)



subsection \<open>Closing a note window\<close>

lemma settle_invoked:
  assumes "map_of (pending s) n = None" "nextCall s = n" "accepts k out"
  shows "step (invoke c k s) (Settle n out) =
           resume k out (s\<lparr>nextCall := Suc n, trace := trace s @ [Invoke n c, Settled n out]\<rparr>)"
  using settle_after_invoke [of s k out c] assms by simp

lemma close_pending:
  assumes "\<not> isDashboard t" "saveTimeout t = Some h" "h \<noteq> 0"
  shows "step t ClickClose =
           invoke (SaveNote (noteId t) (currentContent t)) Close_save
             (t\<lparr>timers := filter (\<lambda>x. fst x \<noteq> h) (timers t),
                trace := trace t @ [ClearTimeout h],
                saveTimeout := None\<rparr>)"
  using assms by (simp add: closeWindow_def clearTimeout_def)

lemma close_idle:
  assumes "\<not> isDashboard t" "\<not> pendingSave t"
  shows "step t ClickClose = invoke WindowClose Return t"
  using assms by (auto simp: closeWindow_def pendingSave_def split: option.splits)

lemma emitted_close_pending:
  assumes "\<not> isDashboard t" "saveTimeout t = Some h" "h \<noteq> 0"
  shows "emitted t ClickClose =
           [ClearTimeout h, Invoke (nextCall t) (SaveNote (noteId t) (currentContent t))]"
  unfolding emitted_def close_pending [OF assms] by (simp add: invoke_def)

lemma emitted_close_idle:
  assumes "\<not> isDashboard t" "\<not> pendingSave t"
  shows "emitted t ClickClose = [Invoke (nextCall t) WindowClose]"
  unfolding emitted_def close_idle [OF assms] by (simp add: invoke_def)

lemma emitted_flush_settles:
  assumes "\<not> isDashboard t" "saveTimeout t = Some h" "h \<noteq> 0"
    and "map_of (pending t) (nextCall t) = None"
  shows "emitted (step t ClickClose) (Settle (nextCall t) Rejected) =
           [Settled (nextCall t) Rejected, ConsoleError ''Failed to save note on close:'',
            Invoke (Suc (nextCall t)) WindowClose]"
    and "emitted (step t ClickClose) (Settle (nextCall t) (Resolved Unit)) =
           [Settled (nextCall t) (Resolved Unit),
            Invoke (Suc (nextCall t)) (if file_rev t = AppVue then TriggerRefreshNotes else WindowClose)]"
proof -
  show "emitted (step t ClickClose) (Settle (nextCall t) Rejected) =
           [Settled (nextCall t) Rejected, ConsoleError ''Failed to save note on close:'',
            Invoke (Suc (nextCall t)) WindowClose]"
    unfolding emitted_def close_pending [OF assms(1-3)]
    by (subst settle_invoked; simp add: assms(4) invoke_def emit_def)
  show "emitted (step t ClickClose) (Settle (nextCall t) (Resolved Unit)) =
           [Settled (nextCall t) (Resolved Unit),
            Invoke (Suc (nextCall t)) (if file_rev t = AppVue then TriggerRefreshNotes else WindowClose)]"
    unfolding emitted_def close_pending [OF assms(1-3)]
    by (subst settle_invoked; simp add: assms(4) invoke_def emit_def)
qed

text \<open>
  A failed save of the timer in the slot. When the timer whose handle the slot holds
  fires and its save call is rejected, the slot still holds the handle although the
  timer is no longer queued. If the window is closed next, the handler finds the slot
  set: it issues a save call with the current content and makes the destroy call only
  once that call has settled (after the refresh call, when the save succeeded in
  \<^verbatim>\<open>App.vue\<close>). When the save call of that timer has resolved instead, the slot is empty
  and the close handler makes the destroy call at once, with no save.
\<close>

lemma failed_save_keeps_slot_for_close:
  assumes "s = run (mounted r label saved notes) evs" "\<not> isDashboard s"
    and "saveTimeout s = Some h" "(h, d, c) \<in> set (timers s)" "d \<le> now s"
    and "u = run s [TimerFires h, Settle (nextCall s) Rejected, Tick dt]"
    and "v = run s [TimerFires h, Settle (nextCall s) (Resolved Unit), Tick dt]"
  shows "saveTimeout u = Some h \<and> h \<notin> fst ` set (timers u) \<and> pendingSave u
         \<and> currentContent u = currentContent s
         \<and> emitted u ClickClose =
             [ClearTimeout h, Invoke (nextCall u) (SaveNote (noteId s) (currentContent s))]
         \<and> emitted (step u ClickClose) (Settle (nextCall u) Rejected) =
             [Settled (nextCall u) Rejected, ConsoleError ''Failed to save note on close:'',
              Invoke (Suc (nextCall u)) WindowClose]
         \<and> emitted (step u ClickClose) (Settle (nextCall u) (Resolved Unit)) =
             [Settled (nextCall u) (Resolved Unit),
              Invoke (Suc (nextCall u)) (if file_rev s = AppVue then TriggerRefreshNotes else WindowClose)]
         \<and> saveTimeout v = None \<and> \<not> pendingSave v
         \<and> emitted v ClickClose = [Invoke (nextCall v) WindowClose]"
proof -
  have ok: "timers_ok s" "calls_ok s"
    using assms(1) timers_ok_reachable calls_ok_reachable by simp_all
  have h0: "h \<noteq> 0" by (rule slot_content(2) [OF ok(1) assms(3,4)])
  have u: "u = s\<lparr>timers := filter (\<lambda>t. fst t \<noteq> h) (timers s),
             nextCall := Suc (nextCall s),
             trace := trace s @ [Invoke (nextCall s) (SaveNote (noteId s) c),
                                 Settled (nextCall s) Rejected,
                                 ConsoleError ''Failed to save note:''],
             now := now s + dt\<rparr>"
    using fired_failed [OF ok assms(4,5)] assms(6)
    by (simp add: run_append [of s "[TimerFires h, Settle (nextCall s) Rejected]" "[Tick dt]", simplified])
  have ud: "\<not> isDashboard u" "saveTimeout u = Some h" "noteId u = noteId s" "file_rev u = file_rev s"
    "currentContent u = currentContent s" "h \<notin> fst ` set (timers u)"
    using assms(2,3) unfolding u by auto
  have uf: "map_of (pending u) (nextCall u) = None"
    using calls_ok_fresh [OF ok(2), of "Suc (nextCall s)"] unfolding u by simp
  have up: "pendingSave u" using ud(2) h0 by (simp add: pendingSave_def)
  have vd: "\<not> isDashboard v" "saveTimeout v = None"
    using fired_saved [OF ok assms(4,5)] assms(2,7)
    by (auto simp: run_append [of s "[TimerFires h, Settle (nextCall s) (Resolved Unit)]" "[Tick dt]", simplified]
        split: if_splits)
  have vp: "\<not> pendingSave v" using vd(2) by (simp add: pendingSave_def)
  from ud up emitted_close_pending [OF ud(1,2) h0] emitted_flush_settles [OF ud(1,2) h0 uf]
    vd(2) vp emitted_close_idle [OF vd(1) vp]
  show ?thesis by simp
qed


lemma failed_save_keeps_slot_for_close_example:
  "saveTimeout (run (run (mounted AppVue ''note-42'' [] []) [MarkdownUpdated ''Hello'', Tick 1000])
      [TimerFires 1, Settle 0 Rejected, Tick 250]) = Some 1
   \<and> emitted (run (run (mounted AppVue ''note-42'' [] []) [MarkdownUpdated ''Hello'', Tick 1000])
      [TimerFires 1, Settle 0 Rejected, Tick 250]) ClickClose
       = [ClearTimeout 1, Invoke 1 (SaveNote ''42'' ''Hello'')]
   \<and> saveTimeout (run (run (mounted AppVue ''note-42'' [] []) [MarkdownUpdated ''Hello'', Tick 1000])
      [TimerFires 1, Settle 0 (Resolved Unit), Tick 250]) = None
   \<and> emitted (run (run (mounted AppVue ''note-42'' [] []) [MarkdownUpdated ''Hello'', Tick 1000])
      [TimerFires 1, Settle 0 (Resolved Unit), Tick 250]) ClickClose
       = [Invoke 2 WindowClose]"
proof -
  let ?s = "run (mounted AppVue ''note-42'' [] []) [MarkdownUpdated ''Hello'', Tick 1000]"
  have d: "\<not> isDashboard ?s" unfolding edited_once by simp
  have a: "saveTimeout ?s = Some 1" "(1, 1000, ''Hello'') \<in> set (timers ?s)" "1000 \<le> now ?s"
    unfolding edited_once by simp_all
  have n: "nextCall ?s = 0" "noteId ?s = ''42''" "currentContent ?s = ''Hello''"
    unfolding edited_once by simp_all
  have u: "nextCall (run ?s [TimerFires 1, Settle 0 Rejected, Tick 250]) = 1"
    and v: "nextCall (run ?s [TimerFires 1, Settle 0 (Resolved Unit), Tick 250]) = 2"
    unfolding edited_once by (simp_all add: eval_defs)
  from failed_save_keeps_slot_for_close [OF refl d a, of _ 250 _, unfolded n, OF refl refl]
  show ?thesis unfolding u v by blast
qed

lemma destroy_after_none: "\<forall>ob \<in> set l. \<not> isDestroy ob \<Longrightarrow> destroy_after n l"
  unfolding destroy_after_def by auto

lemma destroy_after_append:
  assumes "destroy_after n l" "Settled n out \<in> set l"
  shows "destroy_after n (l @ l')"
  unfolding destroy_after_def
proof (intro allI impI)
  fix pre post q
  assume eq: "l @ l' = pre @ Invoke q WindowClose # post"
  then consider us where "l = pre @ us" "us @ l' = Invoke q WindowClose # post" "us \<noteq> []"
    | us where "l @ us = pre"
    by (auto simp: append_eq_append_conv2) (metis append.right_neutral)
  then show "\<exists>out. Settled n out \<in> set pre"
  proof cases
    case 1
    then obtain us' where "us = Invoke q WindowClose # us'" by (cases us) auto
    with 1(1) assms(1) show ?thesis unfolding destroy_after_def by blast
  next
    case 2
    with assms(2) show ?thesis by auto
  qed
qed

lemma resume_not_closing:
  assumes "\<not> closing k"
  shows "(\<forall>ob \<in> set (trace (resume k out t)). isDestroy ob \<longrightarrow> ob \<in> set (trace t))
         \<and> (\<forall>p \<in> set (pending (resume k out t)). closing (snd p) \<longrightarrow> p \<in> set (pending t))
         \<and> (map_of (pending t) n = Some c \<longrightarrow> map_of (pending (resume k out t)) n = Some c)"
  using assms
  by (cases "(k, out, t)" rule: resume.cases) (simp_all add: handler_defs Let_def map_add_def)

lemma step_not_closing:
  assumes "e \<noteq> ClickClose" "\<forall>q out. e \<noteq> Settle q out"
  shows "(\<forall>ob \<in> set (trace (step t e)). isDestroy ob \<longrightarrow> ob \<in> set (trace t))
         \<and> (\<forall>p \<in> set (pending (step t e)). closing (snd p) \<longrightarrow> p \<in> set (pending t))
         \<and> (map_of (pending t) n = Some c \<longrightarrow> map_of (pending (step t e)) n = Some c)"
proof (cases e)
  case (MarkdownUpdated md)
  then show ?thesis
    by (cases "saveTimeout t")
       (simp_all add: markdownUpdated_def debounceSave_def clearTimeout_def Let_def)
next
  case (TimerFires h)
  then show ?thesis
    by (simp add: timerCallback_def invoke_def map_add_def split: option.splits)
qed (use assms in \<open>simp_all add: handler_defs Let_def map_add_def\<close>)

lemma settle_not_closing:
  assumes "map_of (pending t) q = Some k" "\<not> closing k" "accepts k out"
  shows "(\<forall>ob \<in> set (trace (step t (Settle q out))). isDestroy ob \<longrightarrow> ob \<in> set (trace t))
         \<and> (\<forall>p \<in> set (pending (step t (Settle q out))). closing (snd p) \<longrightarrow> p \<in> set (pending t))
         \<and> (q \<noteq> n \<and> map_of (pending t) n = Some c \<longrightarrow>
              map_of (pending (step t (Settle q out))) n = Some c)"
proof -
  let ?t = "t\<lparr>pending := filter (\<lambda>p. fst p \<noteq> q) (pending t), trace := trace t @ [Settled q out]\<rparr>"
  have s: "step t (Settle q out) = resume k out ?t" using assms(1,3) by simp
  have 1: "\<forall>ob \<in> set (trace ?t). isDestroy ob \<longrightarrow> ob \<in> set (trace t)" by simp
  have 2: "\<forall>p \<in> set (pending ?t). p \<in> set (pending t)" by simp
  have 3: "q \<noteq> n \<and> map_of (pending t) n = Some c \<longrightarrow> map_of (pending ?t) n = Some c"
    by (simp add: map_of_remove)
  from resume_not_closing [OF assms(2), of out ?t n c] 1 2 3 show ?thesis
    unfolding s by blast
qed

lemma not_closing_step:
  assumes "not_closing t" "e \<noteq> ClickClose"
  shows "not_closing (step t e)"
proof (cases "\<exists>q out. e = Settle q out")
  case False
  with step_not_closing [OF assms(2), of t] assms(1) show ?thesis
    unfolding not_closing_def by blast
next
  case True
  then obtain q out where e: "e = Settle q out" by blast
  show ?thesis
  proof (cases "map_of (pending t) q")
    case None
    with e assms(1) show ?thesis by simp
  next
    case (Some k)
    show ?thesis
    proof (cases "accepts k out")
      case False
      with e Some assms(1) show ?thesis by simp
    next
      case True
      from Some have "(q, k) \<in> set (pending t)" by (rule map_of_SomeD)
      with assms(1) have "\<not> closing k" unfolding not_closing_def by force
      from settle_not_closing [OF Some this True] assms(1) show ?thesis
        unfolding not_closing_def e by blast
    qed
  qed
qed

lemma not_closing_run:
  "not_closing t \<Longrightarrow> ClickClose \<notin> set evs \<Longrightarrow> not_closing (run t evs)"
proof (induction evs arbitrary: t)
  case Nil
  then show ?case by simp
next
  case (Cons e evs)
  from Cons.prems have "not_closing (step t e)" by (intro not_closing_step) auto
  from Cons.IH [OF this] Cons.prems(2) show ?case by simp
qed

lemma not_closing_mounted: "not_closing (mounted r label saved notes)"
  by (simp add: not_closing_def mounted_def Let_def)

lemma flushed_step:
  assumes "flushed n t"
  shows "flushed n (step t e)"
proof -
  from assms obtain out where a: "destroy_after n (trace t)" "Settled n out \<in> set (trace t)"
    unfolding flushed_def by blast
  from destroy_after_append [OF a, of "emitted t e"] a(2) show ?thesis
    unfolding flushed_def trace_step [of t e] by auto
qed

lemma flushing_step:
  assumes "flushing n t" "e \<noteq> ClickClose"
  shows "flushing n (step t e) \<or> flushed n (step t e)"
proof (cases "\<exists>q out. e = Settle q out")
  case False
  with step_not_closing [OF assms(2), of t n Close_save] assms(1)
  have "flushing n (step t e)"
    unfolding flushing_def by blast
  then show ?thesis ..
next
  case True
  then obtain q out where e: "e = Settle q out" by blast
  show ?thesis
  proof (cases "map_of (pending t) q")
    case None
    with e assms(1) show ?thesis by simp
  next
    case (Some k)
    show ?thesis
    proof (cases "accepts k out")
      case False
      with e Some assms(1) show ?thesis by simp
    next
      case True
      show ?thesis
      proof (cases "q = n")
        case qn: True
        let ?t = "t\<lparr>pending := filter (\<lambda>p. fst p \<noteq> q) (pending t), trace := trace t @ [Settled q out]\<rparr>"
        obtain l where "trace (resume k out ?t) = trace ?t @ l"
          using trace_resume by blast
        with e Some True qn have tr: "trace (step t e) = (trace t @ [Settled n out]) @ l" by simp
        have "\<forall>ob \<in> set (trace t @ [Settled n out]). \<not> isDestroy ob"
          using assms(1) by (simp add: flushing_def)
        then have "destroy_after n (trace t @ [Settled n out])"
          by (rule destroy_after_none)
        from destroy_after_append [OF this, of out l] have "flushed n (step t e)"
          unfolding flushed_def tr by auto
        then show ?thesis ..
      next
        case qn: False
        from Some have m: "(q, k) \<in> set (pending t)" by (rule map_of_SomeD)
        have "\<not> closing k"
        proof
          assume "closing k"
          with m assms(1) have "(q, k) = (n, Close_save)" unfolding flushing_def by force
          with qn show False by simp
        qed
        from settle_not_closing [OF Some this True, of n Close_save] assms(1) qn
        have "flushing n (step t e)"
          unfolding flushing_def e by blast
        then show ?thesis ..
      qed
    qed
  qed
qed

lemma flushing_run:
  assumes "flushing n t \<or> flushed n t" "ClickClose \<notin> set evs"
  shows "flushing n (run t evs) \<or> flushed n (run t evs)"
  using assms
proof (induction evs arbitrary: t)
  case Nil
  then show ?case by simp
next
  case (Cons e evs)
  from Cons.prems have "flushing n (step t e) \<or> flushed n (step t e)"
    using flushing_step [of n t e] flushed_step [of n t e] by auto
  from Cons.IH [OF this] Cons.prems(2) show ?case by simp
qed

lemma flushing_destroy_after:
  "flushing n t \<or> flushed n t \<Longrightarrow> destroy_after n (trace t)"
  by (auto simp: flushing_def flushed_def intro: destroy_after_none)


lemma flushing_after_close:
  assumes "not_closing s" "calls_ok s" "\<not> isDashboard s" "saveTimeout s = Some h" "h \<noteq> 0"
  shows "flushing (nextCall s) (step s ClickClose)"
proof -
  have f0: "map_of (pending s) (nextCall s) = None"
    using calls_ok_fresh [OF assms(2)] by simp
  show ?thesis
    unfolding close_pending [OF assms(3-5)] flushing_def
    using assms(1) f0 by (auto simp: invoke_def map_add_def not_closing_def)
qed

text \<open>
  A close request that has issued its save call keeps awaiting it, whatever the window
  does in the meantime: an event other than the settling of that call leaves the
  continuation in place.
\<close>

lemma pending_resume_keeps:
  "map_of (pending t) n = Some c \<Longrightarrow> map_of (pending (resume k out t)) n = Some c"
  by (cases "(k, out, t)" rule: resume.cases) (simp_all add: handler_defs Let_def map_add_def)

lemma pending_step_keeps:
  assumes "map_of (pending t) n = Some c" "\<forall>out. e \<noteq> Settle n out"
  shows "map_of (pending (step t e)) n = Some c"
proof (cases e)
  case (Settle q out)
  with assms(2) have qn: "q \<noteq> n" by auto
  let ?t = "t\<lparr>pending := filter (\<lambda>p. fst p \<noteq> q) (pending t), trace := trace t @ [Settled q out]\<rparr>"
  have "map_of (pending ?t) n = Some c" using assms(1) qn by (simp add: map_of_remove)
  from pending_resume_keeps [OF this] Settle assms(1) show ?thesis
    by (simp split: option.splits)
next
  case (MarkdownUpdated md)
  with assms(1) show ?thesis
    by (cases "saveTimeout t")
       (simp_all add: markdownUpdated_def debounceSave_def clearTimeout_def Let_def)
next
  case (TimerFires h)
  with assms(1) show ?thesis
    by (simp add: timerCallback_def invoke_def map_add_def split: option.splits)
next
  case ClickClose
  with assms(1) show ?thesis
    by (simp add: closeWindow_def invoke_def clearTimeout_def map_add_def split: option.splits)
qed (use assms(1) in \<open>simp_all add: handler_defs Let_def map_add_def\<close>)

lemma pending_run_keeps:
  assumes "map_of (pending t) n = Some c" "\<forall>out. Settle n out \<notin> set evs"
  shows "map_of (pending (run t evs)) n = Some c"
  using assms
proof (induction evs arbitrary: t)
  case Nil
  then show ?case by simp
next
  case (Cons e evs)
  from Cons.prems have "map_of (pending (step t e)) n = Some c"
    by (intro pending_step_keeps) auto
  from Cons.IH [OF this] Cons.prems(2) show ?case by simp
qed

lemma close_save_resolved:
  assumes "map_of (pending t) q = Some Close_save"
  shows "emitted t (Settle q (Resolved Unit)) =
           [Settled q (Resolved Unit),
            Invoke (nextCall t) (if file_rev t = AppVue then TriggerRefreshNotes else WindowClose)]"
  using assms by (simp add: emitted_def invoke_def)

lemma close_refresh_settles:
  assumes "map_of (pending t) q = Some Close_refresh"
  shows "emitted t (Settle q (Resolved Unit)) =
           [Settled q (Resolved Unit), Invoke (nextCall t) WindowClose]"
    and "emitted t (Settle q Rejected) =
           [Settled q Rejected, ConsoleError ''Failed to save note on close:'',
            Invoke (nextCall t) WindowClose]"
  using assms by (simp_all add: emitted_def invoke_def emit_def)

lemma close_save_then_refresh:
  assumes "calls_ok t" "map_of (pending t) q = Some Close_save" "file_rev t = AppVue"
  shows "map_of (pending (step t (Settle q (Resolved Unit)))) (nextCall t) = Some Close_refresh"
proof -
  have "map_of (pending t) (nextCall t) = None" using calls_ok_fresh [OF assms(1)] by simp
  with assms(2,3) show ?thesis
    by (simp add: invoke_def map_add_def map_of_remove)
qed

text \<open>
  C1, as the code has it. The close handler of a note window tests the slot
  \<open>saveTimeout\<close>. If the slot holds a handle (a timer is queued, or it has fired and its
  save has not succeeded) the handler clears the timer, empties the slot and issues a
  save call with the current content, and no destroy call. Whatever happens next (the
  events \<open>evs\<close>), the handler is still awaiting that save call until it settles, and it
  makes its destroy call when the save call fails, or when it has succeeded and, in
  \<^verbatim>\<open>App.vue\<close>, the refresh call that follows has settled (again whatever happens while
  that call is awaited, the events \<open>evs'\<close>). When this is the only close request of the
  run (before it, and in the events \<open>rest\<close> after it), every destroy call in the log
  comes after that save call has settled. If the slot is empty and no timer is queued,
  the handler makes the destroy call at once and issues no save call.
\<close>

theorem close_flushes_before_destroy:
  assumes "s = run (mounted r label saved notes) evs0" "\<not> isDashboard s"
    and "t = run (step s ClickClose) evs" "\<forall>out. Settle (nextCall s) out \<notin> set evs"
    and "u = run (step t (Settle (nextCall s) (Resolved Unit))) evs'"
      "\<forall>out. Settle (nextCall t) out \<notin> set evs'"
  shows "(pendingSave s \<and> saveTimeout s = Some h \<longrightarrow>
            emitted s ClickClose =
              [ClearTimeout h, Invoke (nextCall s) (SaveNote (noteId s) (currentContent s))]
            \<and> map_of (pending t) (nextCall s) = Some Close_save
            \<and> emitted t (Settle (nextCall s) Rejected) =
                [Settled (nextCall s) Rejected, ConsoleError ''Failed to save note on close:'',
                 Invoke (nextCall t) WindowClose]
            \<and> emitted t (Settle (nextCall s) (Resolved Unit)) =
                [Settled (nextCall s) (Resolved Unit),
                 Invoke (nextCall t)
                   (if file_rev s = AppVue then TriggerRefreshNotes else WindowClose)]
            \<and> (file_rev s = AppVue \<longrightarrow>
                 map_of (pending u) (nextCall t) = Some Close_refresh
                 \<and> emitted u (Settle (nextCall t) (Resolved Unit)) =
                     [Settled (nextCall t) (Resolved Unit), Invoke (nextCall u) WindowClose]
                 \<and> emitted u (Settle (nextCall t) Rejected) =
                     [Settled (nextCall t) Rejected,
                      ConsoleError ''Failed to save note on close:'',
                      Invoke (nextCall u) WindowClose])
            \<and> (ClickClose \<notin> set evs0 \<and> ClickClose \<notin> set rest \<longrightarrow>
                 (\<forall>pre post q.
                    trace (run s (ClickClose # rest)) = pre @ Invoke q WindowClose # post
                    \<longrightarrow> (\<exists>out. Settled (nextCall s) out \<in> set pre))))
         \<and> (\<not> pendingSave s \<and> timers s = [] \<longrightarrow>
              emitted s ClickClose = [Invoke (nextCall s) WindowClose])"
proof (intro conjI impI)
  assume "\<not> pendingSave s \<and> timers s = []"
  then show "emitted s ClickClose = [Invoke (nextCall s) WindowClose]"
    using emitted_close_idle [OF assms(2)] by blast
next
  assume p: "pendingSave s \<and> saveTimeout s = Some h"
  then have h: "saveTimeout s = Some h" "h \<noteq> 0" by (auto simp: pendingSave_def)
  have ok: "calls_ok s" using assms(1) calls_ok_reachable by simp
  have okt: "calls_ok t"
    unfolding assms(3) by (intro calls_ok_run calls_ok_step ok)
  have rt: "file_rev t = file_rev s"
    unfolding assms(3) using fixed_run [of "step s ClickClose" evs] fixed_step [of s ClickClose]
    by simp
  have f0: "map_of (pending s) (nextCall s) = None"
    using calls_ok_fresh [OF ok] by simp
  have "map_of (pending (step s ClickClose)) (nextCall s) = Some Close_save"
    unfolding close_pending [OF assms(2) h] using f0 by (simp add: invoke_def map_add_def)
  from pending_run_keeps [OF this assms(4)]
  show pt: "map_of (pending t) (nextCall s) = Some Close_save"
    unfolding assms(3) .
  show "emitted s ClickClose =
          [ClearTimeout h, Invoke (nextCall s) (SaveNote (noteId s) (currentContent s))]"
    by (rule emitted_close_pending [OF assms(2) h])
  show "emitted t (Settle (nextCall s) Rejected) =
          [Settled (nextCall s) Rejected, ConsoleError ''Failed to save note on close:'',
           Invoke (nextCall t) WindowClose]"
    by (rule emitted_save_rejected(2) [OF pt])
  show "emitted t (Settle (nextCall s) (Resolved Unit)) =
          [Settled (nextCall s) (Resolved Unit),
           Invoke (nextCall t) (if file_rev s = AppVue then TriggerRefreshNotes else WindowClose)]"
    using close_save_resolved [OF pt] rt by simp
  {
    assume a: "file_rev s = AppVue"
    from close_save_then_refresh [OF okt pt] a rt
    have "map_of (pending (step t (Settle (nextCall s) (Resolved Unit)))) (nextCall t)
            = Some Close_refresh" by simp
    from pending_run_keeps [OF this assms(6)]
    show pu: "map_of (pending u) (nextCall t) = Some Close_refresh"
      unfolding assms(5) .
    show "emitted u (Settle (nextCall t) (Resolved Unit)) =
            [Settled (nextCall t) (Resolved Unit), Invoke (nextCall u) WindowClose]"
      by (rule close_refresh_settles(1) [OF pu])
    show "emitted u (Settle (nextCall t) Rejected) =
            [Settled (nextCall t) Rejected, ConsoleError ''Failed to save note on close:'',
             Invoke (nextCall u) WindowClose]"
      by (rule close_refresh_settles(2) [OF pu])
  }
  {
    assume c: "ClickClose \<notin> set evs0 \<and> ClickClose \<notin> set rest"
    have nc: "not_closing s"
      using assms(1) c not_closing_run [OF not_closing_mounted] by simp
    have "flushing (nextCall s) (step s ClickClose)"
      by (rule flushing_after_close [OF nc ok assms(2) h])
    then have "flushing (nextCall s) (run (step s ClickClose) rest)
               \<or> flushed (nextCall s) (run (step s ClickClose) rest)"
      using flushing_run c by blast
    then have "destroy_after (nextCall s) (trace (run s (ClickClose # rest)))"
      using flushing_destroy_after by simp
    then show "\<forall>pre post q.
                  trace (run s (ClickClose # rest)) = pre @ Invoke q WindowClose # post
                  \<longrightarrow> (\<exists>out. Settled (nextCall s) out \<in> set pre)"
      unfolding destroy_after_def .
  }
qed

text \<open>The scenario of the specification: two edits 300 ms apart, and the window is
  closed 200 ms later. The handler is followed through a second close request made
  while its save call is awaited, and through a run with this one close request, in
  which the two calls of the flush succeed; a window with no edit is closed at once.\<close>

lemma edited_twice:
  "run (mounted AppVue ''note-abc'' [] [])
      [MarkdownUpdated ''Hello'', Tick 300, MarkdownUpdated ''Hello world'', Tick 200] =
     \<lparr>file_rev = AppVue, isAlwaysOnTop = False, isDashboard = False, isCreatingNote = False,
      noteId = ''abc'', currentContent = ''Hello world'', allNotes = [], saveTimeout = Some 2,
      now = 500, timers = [(2, 1300, ''Hello world'')], nextTimer = 3, pending = [],
      nextCall = 0, trace = [SetTimeout 1 1000, ClearTimeout 1, SetTimeout 2 1000]\<rparr>"
  by (simp add: eval_defs)

theorem close_flushes_before_destroy_witness:
  "pendingSave (run (mounted AppVue ''note-abc'' [] [])
      [MarkdownUpdated ''Hello'', Tick 300, MarkdownUpdated ''Hello world'', Tick 200])
   \<and> emitted (run (mounted AppVue ''note-abc'' [] [])
      [MarkdownUpdated ''Hello'', Tick 300, MarkdownUpdated ''Hello world'', Tick 200]) ClickClose
       = [ClearTimeout 2, Invoke 0 (SaveNote ''abc'' ''Hello world'')]
   \<and> map_of (pending (run (mounted AppVue ''note-abc'' [] [])
      [MarkdownUpdated ''Hello'', Tick 300, MarkdownUpdated ''Hello world'', Tick 200,
       ClickClose, ClickClose])) 0 = Some Close_save
   \<and> emitted (run (mounted AppVue ''note-abc'' [] [])
      [MarkdownUpdated ''Hello'', Tick 300, MarkdownUpdated ''Hello world'', Tick 200,
       ClickClose, ClickClose]) (Settle 0 Rejected)
       = [Settled 0 Rejected, ConsoleError ''Failed to save note on close:'',
          Invoke 2 WindowClose]
   \<and> emitted (run (mounted AppVue ''note-abc'' [] [])
      [MarkdownUpdated ''Hello'', Tick 300, MarkdownUpdated ''Hello world'', Tick 200,
       ClickClose, ClickClose]) (Settle 0 (Resolved Unit))
       = [Settled 0 (Resolved Unit), Invoke 2 TriggerRefreshNotes]
   \<and> emitted (run (mounted AppVue ''note-abc'' [] [])
      [MarkdownUpdated ''Hello'', Tick 300, MarkdownUpdated ''Hello world'', Tick 200,
       ClickClose, ClickClose, Settle 0 (Resolved Unit), Tick 10]) (Settle 2 (Resolved Unit))
       = [Settled 2 (Resolved Unit), Invoke 3 WindowClose]
   \<and> trace (run (mounted AppVue ''note-abc'' [] [])
      [MarkdownUpdated ''Hello'', Tick 300, MarkdownUpdated ''Hello world'', Tick 200,
       ClickClose, Settle 0 (Resolved Unit), Settle 1 (Resolved Unit)])
       = [SetTimeout 1 1000, ClearTimeout 1, SetTimeout 2 1000, ClearTimeout 2,
          Invoke 0 (SaveNote ''abc'' ''Hello world''), Settled 0 (Resolved Unit),
          Invoke 1 TriggerRefreshNotes, Settled 1 (Resolved Unit), Invoke 2 WindowClose]
   \<and> (\<exists>out. Settled 0 out \<in> set
          [SetTimeout 1 1000, ClearTimeout 1, SetTimeout 2 1000, ClearTimeout 2,
           Invoke 0 (SaveNote ''abc'' ''Hello world''), Settled 0 (Resolved Unit),
           Invoke 1 TriggerRefreshNotes, Settled 1 (Resolved Unit)])
   \<and> emitted (run (mounted AppVue ''note-abc'' [] []) []) ClickClose = [Invoke 0 WindowClose]"
proof -
  let ?evs0 = "[MarkdownUpdated ''Hello'', Tick 300, MarkdownUpdated ''Hello world'', Tick 200]"
  let ?m = "mounted AppVue ''note-abc'' [] []"
  let ?s = "run ?m ?evs0"
  let ?t = "run (step ?s ClickClose) [ClickClose]"
  let ?u = "run (step ?t (Settle 0 (Resolved Unit))) [Tick 10]"
  let ?rest = "[Settle 0 (Resolved Unit), Settle 1 (Resolved Unit)]"
  let ?pre = "[SetTimeout 1 1000, ClearTimeout 1, SetTimeout 2 1000, ClearTimeout 2,
           Invoke 0 (SaveNote ''abc'' ''Hello world''), Settled 0 (Resolved Unit),
           Invoke 1 TriggerRefreshNotes, Settled 1 (Resolved Unit)]"
  have d: "\<not> isDashboard ?s" unfolding edited_twice by simp
  have p: "pendingSave ?s" "saveTimeout ?s = Some 2" "file_rev ?s = AppVue"
    unfolding edited_twice by (simp_all add: pendingSave_def)
  have v: "nextCall ?s = 0" "noteId ?s = ''abc''" "currentContent ?s = ''Hello world''"
    unfolding edited_twice by simp_all
  have nt: "nextCall ?t = 2" unfolding edited_twice by (simp add: eval_defs)
  have nu: "nextCall ?u = 3" unfolding edited_twice by (simp add: eval_defs)
  have e1: "\<forall>out. Settle (nextCall ?s) out \<notin> set [ClickClose]" by simp
  have e2: "\<forall>out. Settle (nextCall ?t) out \<notin> set [Tick 10]" by simp
  have c: "ClickClose \<notin> set ?evs0 \<and> ClickClose \<notin> set ?rest" by simp
  have tr: "trace (run ?s (ClickClose # ?rest))
       = [SetTimeout 1 1000, ClearTimeout 1, SetTimeout 2 1000, ClearTimeout 2,
          Invoke 0 (SaveNote ''abc'' ''Hello world''), Settled 0 (Resolved Unit),
          Invoke 1 TriggerRefreshNotes, Settled 1 (Resolved Unit), Invoke 2 WindowClose]"
    unfolding edited_twice by (simp add: eval_defs)
  have tr': "trace (run ?s (ClickClose # ?rest)) = ?pre @ [Invoke 2 WindowClose]"
    unfolding tr by simp
  have rs: "run ?m [MarkdownUpdated ''Hello'', Tick 300, MarkdownUpdated ''Hello world'', Tick 200,
       ClickClose, ClickClose] = ?t"
     "run ?m [MarkdownUpdated ''Hello'', Tick 300, MarkdownUpdated ''Hello world'', Tick 200,
       ClickClose, ClickClose, Settle 0 (Resolved Unit), Tick 10] = ?u"
     "run ?m [MarkdownUpdated ''Hello'', Tick 300, MarkdownUpdated ''Hello world'', Tick 200,
       ClickClose, Settle 0 (Resolved Unit), Settle 1 (Resolved Unit)]
        = run ?s (ClickClose # ?rest)"
    by (simp_all only: run_Cons run_Nil)
  have i: "\<not> isDashboard (run ?m [])" "\<not> pendingSave (run ?m []) \<and> timers (run ?m []) = []"
    "nextCall (run ?m []) = 0"
    by (simp_all add: eval_defs)
  note th = close_flushes_before_destroy [OF refl d refl e1, unfolded v, OF refl e2 [unfolded v], of 2 ?rest,
      unfolded nt nu p(3) if_P [OF refl]]
  from th p(1,2) c
  have a: "emitted ?s ClickClose = [ClearTimeout 2, Invoke 0 (SaveNote ''abc'' ''Hello world'')]"
    "map_of (pending ?t) 0 = Some Close_save"
    "emitted ?t (Settle 0 Rejected) =
       [Settled 0 Rejected, ConsoleError ''Failed to save note on close:'', Invoke 2 WindowClose]"
    "emitted ?t (Settle 0 (Resolved Unit)) =
       [Settled 0 (Resolved Unit), Invoke 2 TriggerRefreshNotes]"
    "emitted ?u (Settle 2 (Resolved Unit)) = [Settled 2 (Resolved Unit), Invoke 3 WindowClose]"
    "\<forall>pre post q. trace (run ?s (ClickClose # ?rest)) = pre @ Invoke q WindowClose # post
        \<longrightarrow> (\<exists>out. Settled 0 out \<in> set pre)"
    by blast+
  from a(6) tr' have o: "\<exists>out. Settled 0 out \<in> set ?pre" by blast
  have e3: "\<forall>out. Settle (nextCall (run ?m [])) out \<notin> set []"
    and e4: "\<forall>out. Settle (nextCall (run (step (run ?m []) ClickClose) [])) out \<notin> set []"
    by simp_all
  from close_flushes_before_destroy [OF refl i(1) refl e3 refl e4, of 0 "[]", unfolded i(3)] i(2)
  have b: "emitted (run ?m []) ClickClose = [Invoke 0 WindowClose]" by blast
  show ?thesis
    unfolding rs using p(1) a(1-5) tr o b by blast
qed

text \<open>
  C1, as stated, fails. A scheduled save is a queued timer with the content it will save.
  Here the only timer has fired and its save call was rejected: no timer is queued, and
  the close handler still issues a save call before it destroys the window.
\<close>

theorem close_saves_with_no_timer_queued:
  "timers (run (mounted AppVue ''note-42'' [] [])
      [MarkdownUpdated ''Hello'', Tick 1000, TimerFires 1, Settle 0 Rejected]) = []
   \<and> emitted (run (mounted AppVue ''note-42'' [] [])
      [MarkdownUpdated ''Hello'', Tick 1000, TimerFires 1, Settle 0 Rejected]) ClickClose
       = [ClearTimeout 1, Invoke 1 (SaveNote ''42'' ''Hello'')]"
  by (simp add: eval_defs)

text \<open>
  The order of the log as a whole needs the close request to be the only one. A second
  close request made while the save call of the first is awaited finds the slot empty
  and makes its destroy call at once; and after an edit made during the flush, the
  destroy call of the first request is made while the save call of the second is
  awaited.
\<close>

lemma second_close_destroys_during_flush:
  "trace (run (mounted AppVue ''note-abc'' [] [])
      [MarkdownUpdated ''Hello'', Tick 300, MarkdownUpdated ''Hello world'', Tick 200,
       ClickClose, ClickClose])
     = [SetTimeout 1 1000, ClearTimeout 1, SetTimeout 2 1000, ClearTimeout 2,
        Invoke 0 (SaveNote ''abc'' ''Hello world''), Invoke 1 WindowClose]
   \<and> trace (run (mounted AppVue ''note-abc'' [] [])
      [MarkdownUpdated ''Hello'', Tick 300, MarkdownUpdated ''Hello world'', Tick 200,
       ClickClose, MarkdownUpdated ''more'', ClickClose, Settle 0 Rejected])
     = [SetTimeout 1 1000, ClearTimeout 1, SetTimeout 2 1000, ClearTimeout 2,
        Invoke 0 (SaveNote ''abc'' ''Hello world''), SetTimeout 3 1000, ClearTimeout 3,
        Invoke 1 (SaveNote ''abc'' ''more''), Settled 0 Rejected,
        ConsoleError ''Failed to save note on close:'', Invoke 2 WindowClose]"
  by (simp add: eval_defs)

subsection \<open>Debouncing\<close>

lemma saveCalls_append [simp]: "saveCalls (l @ l') = saveCalls l @ saveCalls l'"
  by (induction l rule: saveCalls.induct) auto

lemma debounceSave_idle:
  assumes "timers s = []"
  shows "timers (debounceSave c s) = [(nextTimer s, now s + 1000, c)]"
    and "saveTimeout (debounceSave c s) = Some (nextTimer s)"
    and "nextTimer (debounceSave c s) = Suc (nextTimer s)"
    and "saveCalls (trace (debounceSave c s)) = saveCalls (trace s)"
    and "pending (debounceSave c s) = pending s" "now (debounceSave c s) = now s"
    and "isDashboard (debounceSave c s) = isDashboard s"
    and "currentContent (debounceSave c s) = currentContent s"
  using assms
  by (auto simp: debounceSave_def clearTimeout_def Let_def split: option.splits)

lemma burst_resume:
  assumes "k \<noteq> Debounce_save"
  shows "timers (resume k out t) = timers t \<and> saveTimeout (resume k out t) = saveTimeout t
         \<and> currentContent (resume k out t) = currentContent t \<and> now (resume k out t) = now t
         \<and> nextTimer (resume k out t) = nextTimer t
         \<and> saveCalls (trace (resume k out t)) = saveCalls (trace t)
         \<and> (debouncing (resume k out t) \<longleftrightarrow> debouncing t)"
  using assms
  by (cases "(k, out, t)" rule: resume.cases) (auto simp: handler_defs Let_def debouncing_def)

lemma burst_resume_fired:
  "timers (resume k out t) = timers t
   \<and> currentContent (resume k out t) = currentContent t \<and> now (resume k out t) = now t
   \<and> nextTimer (resume k out t) = nextTimer t
   \<and> saveCalls (trace (resume k out t)) = saveCalls (trace t)"
  by (cases "(k, out, t)" rule: resume.cases) (auto simp: handler_defs Let_def)


lemma burst_edit:
  assumes "burst_inv b g t" "in_time g (MarkdownUpdated c)"
  shows "burst_inv b (Some 0) (step t (MarkdownUpdated c))"
proof -
  let ?t = "t\<lparr>currentContent := c\<rparr>"
  from assms(1) have d: "\<not> isDashboard t" and n: "0 < nextTimer t"
    by (auto simp: burst_inv_def)
  have st: "step t (MarkdownUpdated c) = debounceSave c ?t"
    using d by (simp add: markdownUpdated_def)
  show ?thesis
  proof (cases g)
    case None
    with assms(1) have a: "timers ?t = []" "\<not> debouncing ?t" "saveCalls (trace ?t) = b"
      by (auto simp: burst_inv_def debouncing_def)
    from debounceSave_idle [OF a(1), of c] a d n show ?thesis
      unfolding st burst_inv_def debouncing_def by simp
  next
    case (Some x)
    with assms(2) have x: "x < 1000" by simp
    with assms(1) Some obtain h dl where
      a: "timers t = [(h, dl, currentContent t)]" "saveTimeout t = Some h" "h \<noteq> 0"
         "\<not> debouncing t" "saveCalls (trace t) = b"
      by (auto simp: burst_inv_def)
    have "saveTimeout ?t = Some h" using a(2) by simp
    from debounceSave_replace [OF this a(3), of c] a d n show ?thesis
      unfolding st burst_inv_def debouncing_def by simp
  qed
qed

lemma burst_fire:
  assumes "burst_inv b g t"
  shows "burst_inv b g (step t (TimerFires h'))"
proof (cases "find (\<lambda>x. fst x = h') (timers t)")
  case None
  with assms show ?thesis by simp
next
  case (Some tm)
  obtain h dl c where tm: "tm = (h, dl, c)" by (cases tm) auto
  from Some have nonempty: "timers t \<noteq> []" by auto
  with assms obtain x where g: "g = Some x"
    and a: "timers t = [(h, dl, currentContent t)]" "c = currentContent t" "h' = h"
      "dl + x = now t + 1000" "saveCalls (trace t) = b" "\<not> isDashboard t" "0 < nextTimer t"
    using Some tm by (cases g) (auto simp: burst_inv_def split: if_splits)
  show ?thesis
  proof (cases "dl \<le> now t")
    case False
    with Some tm assms show ?thesis by simp
  next
    case True
    with a(4) have "1000 \<le> x" by simp
    with Some tm True a show ?thesis
      unfolding g burst_inv_def
      by (simp add: timerCallback_def invoke_def)
  qed
qed

lemma burst_settle:
  assumes "burst_inv b g t"
  shows "burst_inv b g (step t (Settle q out))"
proof (cases "map_of (pending t) q")
  case None
  with assms show ?thesis by simp
next
  case (Some k)
  let ?t = "t\<lparr>pending := filter (\<lambda>p. fst p \<noteq> q) (pending t), trace := trace t @ [Settled q out]\<rparr>"
  have m: "(q, k) \<in> set (pending t)" using Some by (rule map_of_SomeD)
  show ?thesis
  proof (cases "accepts k out")
    case False
    with Some assms show ?thesis by simp
  next
    case True
    then have st: "step t (Settle q out) = resume k out ?t" using Some by simp
    have nd: "debouncing ?t \<Longrightarrow> debouncing t"
      unfolding debouncing_def by force
    have inv: "burst_inv b g ?t"
      using assms nd unfolding burst_inv_def by (auto split: option.splits)
    have fx: "isDashboard (resume k out ?t) = isDashboard ?t"
      using fixed_resume [of k out ?t] by simp
    have nid: "noteId (resume k out ?t) = noteId t"
      using fixed_resume [of k out ?t] by simp
    show ?thesis
    proof (cases "k = Debounce_save")
      case False
      from burst_resume [OF this, of out ?t] inv fx nid show ?thesis
        unfolding st burst_inv_def by (auto split: option.splits)
    next
      case True
      with m have "debouncing t" unfolding debouncing_def by force
      with assms obtain x where g: "g = Some x" "timers t = []" "1000 \<le> x"
        "saveCalls (trace t) = b @ [(noteId t, currentContent t)]"
        by (cases g) (auto simp: burst_inv_def)
      from burst_resume_fired [of k out ?t] inv fx g nid show ?thesis
        unfolding st burst_inv_def by simp
    qed
  qed
qed

lemma burst_step:
  assumes "burst_inv b g t" "in_time g e" "e \<noteq> ClickClose"
  shows "burst_inv b (elapse g e) (step t e)"
proof (cases e)
  case (Tick d)
  with assms(1) show ?thesis
    by (auto simp: burst_inv_def debouncing_def split: option.splits)
next
  case (MarkdownUpdated c)
  with assms(1,2) burst_edit show ?thesis by simp
next
  case (TimerFires h)
  with assms(1) burst_fire show ?thesis by simp
next
  case (Settle q out)
  with assms(1) burst_settle show ?thesis by simp
next
  case ClickClose
  with assms(3) show ?thesis by simp
qed (use assms(1) in \<open>auto simp: burst_inv_def debouncing_def handler_defs Let_def
      split: option.splits\<close>)

lemma burst_timers: "burst_inv b g t \<Longrightarrow> length (timers t) \<le> 1"
  by (auto simp: burst_inv_def split: option.splits)

lemma burst_run:
  assumes "burst_inv b g t" "within_window g evs" "ClickClose \<notin> set evs"
  shows "always (\<lambda>t. length (timers t) \<le> 1) t evs \<and> burst_inv b (foldl elapse g evs) (run t evs)"
  using assms
proof (induction evs arbitrary: g t)
  case Nil
  then show ?case using burst_timers [of b g t] by simp
next
  case (Cons e evs)
  from Cons.prems have "burst_inv b (elapse g e) (step t e)"
    by (intro burst_step) auto
  from Cons.IH [OF this] Cons.prems burst_timers [of b g t] show ?case by simp
qed


lemma elapse_None: "foldl elapse g evs = None \<longleftrightarrow> g = None \<and> edits evs = []"
proof (induction evs arbitrary: g)
  case Nil
  show ?case by simp
next
  case (Cons e evs)
  show ?case by (cases e) (simp_all add: Cons.IH)
qed

lemma current_step:
  "\<not> isDashboard t \<Longrightarrow>
     currentContent (step t e) = (case e of MarkdownUpdated c \<Rightarrow> c | _ \<Rightarrow> currentContent t)"
  by (cases e)
     (auto simp: handler_defs Let_def burst_resume_fired split: option.splits)

lemma current_run:
  "\<not> isDashboard t \<Longrightarrow>
     currentContent (run t evs) = (if edits evs = [] then currentContent t else last (edits evs))"
proof (induction evs arbitrary: t)
  case Nil
  show ?case by simp
next
  case (Cons e evs)
  from Cons.prems have d: "\<not> isDashboard (step t e)" by (simp add: fixed_step)
  from Cons.IH [OF d] current_step [OF Cons.prems, of e] show ?case
    by (cases e) simp_all
qed

lemma saveCalls_since:
  assumes "saveCalls (trace (run s evs)) = saveCalls (trace s) @ l"
  shows "saveCalls (since s (run s evs)) = l"
proof -
  have "saveCalls (trace (run s evs)) = saveCalls (trace s) @ saveCalls (since s (run s evs))"
    using trace_run [of s evs] saveCalls_append by metis
  with assms show ?thesis by simp
qed

lemma burst_last_timer_fires:
  assumes "burst_inv b (Some x) u" "timers u = [(h, d, c)]"
  shows "saveCalls (trace (run u [Tick 1000, TimerFires h])) = b @ [(noteId u, c)]"
proof -
  from assms have a: "c = currentContent u" "d + x = now u + 1000" "saveCalls (trace u) = b"
    "\<not> isDashboard u"
    by (auto simp: burst_inv_def)
  from a(2) have "d \<le> now u + 1000" by simp
  with assms(2) a show ?thesis
    by (simp add: timerCallback_def invoke_def)
qed

text \<open>
  Coalescing from rest. Take a note window in which no timer is queued and no debounced
  save is in flight (a new window, for one), and a run in which every edit arrives less
  than 1000 ms after the edit before it, with anything else but a close request in
  between: timers that try to fire, calls that settle, clicks. Then at most one timer is
  queued at every moment: each edit clears the timer of the edit before it and queues
  its own. While that timer is queued no save call has been issued, the timer carries
  the content of the last edit, and when it fires after its delay it issues the save
  call; once it has fired, exactly one save call has been issued, with the content of
  the last edit.
\<close>

lemma coalesced_from_rest:
  assumes "s = run (mounted r label saved notes) evs0" "\<not> isDashboard s"
    and "timers s = []" "\<not> debouncing s"
    and "within_window None evs" "ClickClose \<notin> set evs" "edits evs \<noteq> []"
  shows "always (\<lambda>t. length (timers t) \<le> 1) s evs
         \<and> (timers (run s evs) = [] \<longrightarrow>
              saveCalls (since s (run s evs)) = [(noteId s, last (edits evs))])
         \<and> (timers (run s evs) \<noteq> [] \<longrightarrow>
              saveCalls (since s (run s evs)) = []
              \<and> (\<exists>h d. timers (run s evs) = [(h, d, last (edits evs))]
                    \<and> saveTimeout (run s evs) = Some h
                    \<and> saveCalls (since s (run s (evs @ [Tick 1000, TimerFires h])))
                        = [(noteId s, last (edits evs))]))"
proof -
  let ?b = "saveCalls (trace s)"
  let ?u = "run s evs"
  have "timers_ok s" using assms(1) timers_ok_reachable by simp
  then have "0 < nextTimer s" by (simp add: timers_ok_def timersOK_def)
  with assms(2-4) have "burst_inv ?b None s" by (simp add: burst_inv_def)
  from burst_run [OF this assms(5,6)]
  have al: "always (\<lambda>t. length (timers t) \<le> 1) s evs"
    and inv: "burst_inv ?b (foldl elapse None evs) ?u" by blast+
  from assms(7) elapse_None [of None evs] obtain x where x: "foldl elapse None evs = Some x"
    by (cases "foldl elapse None evs") auto
  have cur: "currentContent ?u = last (edits evs)"
    using current_run [OF assms(2), of evs] assms(7) by simp
  have nid: "noteId ?u = noteId s" by (simp add: fixed_run)
  have fired: "saveCalls (since s ?u) = [(noteId s, last (edits evs))]" if "timers ?u = []"
  proof -
    from inv that have "saveCalls (trace ?u) = ?b @ [(noteId ?u, currentContent ?u)]"
      unfolding x burst_inv_def by auto
    from saveCalls_since [OF this] cur nid show ?thesis by simp
  qed
  have queued: "saveCalls (since s ?u) = []
              \<and> (\<exists>h d. timers ?u = [(h, d, last (edits evs))] \<and> saveTimeout ?u = Some h
                    \<and> saveCalls (since s (run s (evs @ [Tick 1000, TimerFires h])))
                        = [(noteId s, last (edits evs))])" if "timers ?u \<noteq> []"
  proof -
    from inv that obtain h d where
      a: "timers ?u = [(h, d, currentContent ?u)]" "saveTimeout ?u = Some h"
         "saveCalls (trace ?u) = ?b"
      unfolding x burst_inv_def by auto
    from a(3) have 1: "saveCalls (since s ?u) = []"
      using saveCalls_since [of s evs "[]"] by simp
    from burst_last_timer_fires [OF inv [unfolded x] a(1)]
    have "saveCalls (trace (run s (evs @ [Tick 1000, TimerFires h])))
            = ?b @ [(noteId ?u, currentContent ?u)]" by (simp add: run_append)
    from saveCalls_since [OF this] cur nid
    have 2: "saveCalls (since s (run s (evs @ [Tick 1000, TimerFires h])))
               = [(noteId s, last (edits evs))]" by simp
    from 1 2 a(1,2) cur show ?thesis by auto
  qed
  from al fired queued show ?thesis by blast
qed

lemma coalesced_from_rest_example:
  "within_window None [MarkdownUpdated ''Hello'', Tick 300, MarkdownUpdated ''Hello world'',
      Tick 1000, TimerFires 2]
   \<and> always (\<lambda>t. length (timers t) \<le> 1) (run (mounted AppVue ''note-abc'' [] []) [])
       [MarkdownUpdated ''Hello'', Tick 300, MarkdownUpdated ''Hello world'', Tick 1000, TimerFires 2]
   \<and> saveCalls (since (run (mounted AppVue ''note-abc'' [] []) [])
        (run (run (mounted AppVue ''note-abc'' [] []) [])
          [MarkdownUpdated ''Hello'', Tick 300, MarkdownUpdated ''Hello world'', Tick 1000,
           TimerFires 2]))
       = [(''abc'', ''Hello world'')]"
proof -
  let ?s = "run (mounted AppVue ''note-abc'' [] []) []"
  let ?evs = "[MarkdownUpdated ''Hello'', Tick 300, MarkdownUpdated ''Hello world'', Tick 1000,
               TimerFires 2]"
  have h: "\<not> isDashboard ?s" "timers ?s = []" "\<not> debouncing ?s"
    by (simp_all add: eval_defs debouncing_def)
  have w: "within_window None ?evs" "ClickClose \<notin> set ?evs" "edits ?evs \<noteq> []" by simp_all
  have t: "timers (run ?s ?evs) = []" "noteId ?s = ''abc''" "last (edits ?evs) = ''Hello world''"
    by (simp_all add: eval_defs)
  from coalesced_from_rest [OF refl h w] t w(1) show ?thesis by simp
qed

subsection \<open>An edit while a debounced save is in flight\<close>

text \<open>
  The callback of the timer sets \<open>saveTimeout\<close> to \<^verbatim>\<open>null\<close> after its save call has
  resolved. If an edit has arrived in between, the slot held the handle of the timer of
  that edit, and the callback overwrites it: the timer stays queued, but the next edit
  does not clear it and a close request does not flush it.

  C2 fails on such a run. The edit \<open>a\<close> is saved by its timer after 1000 ms; the edit
  \<open>b\<close> arrives while that save call is awaited, and the edit \<open>c\<close> 500 ms after \<open>b\<close>.
  The edit \<open>c\<close> does not cancel the save scheduled by \<open>b\<close>: two timers are queued at
  once, and the two edits, which arrive within the delay of each other, are saved by
  two calls, the first with the content \<open>b\<close> that \<open>c\<close> has replaced. Both revisions
  behave so.
\<close>

theorem edit_during_save_is_not_coalesced:
  "timers (run (mounted AppVue ''note-42'' [] [])
      [MarkdownUpdated ''a'', Tick 1000, TimerFires 1, MarkdownUpdated ''b'',
       Settle 0 (Resolved Unit), Tick 500, MarkdownUpdated ''c''])
     = [(2, 2000, ''b''), (3, 2500, ''c'')]
   \<and> saveCalls (trace (run (mounted AppVue ''note-42'' [] [])
      [MarkdownUpdated ''a'', Tick 1000, TimerFires 1, MarkdownUpdated ''b'',
       Settle 0 (Resolved Unit), Tick 500, MarkdownUpdated ''c'', Tick 500, TimerFires 2,
       Tick 500, TimerFires 3]))
     = [(''42'', ''a''), (''42'', ''b''), (''42'', ''c'')]
   \<and> saveCalls (trace (run (mounted Part000 ''note-42'' [] [])
      [MarkdownUpdated ''a'', Tick 1000, TimerFires 1, MarkdownUpdated ''b'',
       Settle 0 (Resolved Unit), Tick 500, MarkdownUpdated ''c'', Tick 500, TimerFires 2,
       Tick 500, TimerFires 3]))
     = [(''42'', ''a''), (''42'', ''b''), (''42'', ''c'')]"
  by (simp add: eval_defs)

text \<open>On the same run up to the edit \<open>b\<close>, a close request finds the slot empty and
  destroys the window while the timer of \<open>b\<close> is queued.\<close>

lemma edit_during_save_is_not_flushed:
  "timers (run (mounted AppVue ''note-42'' [] [])
      [MarkdownUpdated ''a'', Tick 1000, TimerFires 1, MarkdownUpdated ''b'',
       Settle 0 (Resolved Unit)])
     = [(2, 2000, ''b'')]
   \<and> emitted (run (mounted AppVue ''note-42'' [] [])
      [MarkdownUpdated ''a'', Tick 1000, TimerFires 1, MarkdownUpdated ''b'',
       Settle 0 (Resolved Unit)]) ClickClose
     = [Invoke 2 WindowClose]"
  by (simp add: eval_defs)

text \<open>
  C10 fails through the same overwrite. The edit \<open>b\<close> arrives while the save call of
  \<open>a\<close> is awaited, and when that call resolves the callback empties the slot, which held
  the handle of the timer of \<open>b\<close>. That timer fires after its delay and its save call is
  rejected: the slot is empty, and a close request makes the destroy call at once, with
  no save call, although the content \<open>b\<close> has not been saved. The slot is emptied as
  well when the save call of \<open>a\<close> resolves only after the save call of \<open>b\<close> has been
  rejected, and the earlier revision behaves in the same way.
\<close>

theorem failed_save_of_detached_timer_is_not_flushed:
  "trace (run (mounted AppVue ''note-42'' [] [])
      [MarkdownUpdated ''a'', Tick 1000, TimerFires 1, MarkdownUpdated ''b'',
       Settle 0 (Resolved Unit), Tick 1000, TimerFires 2, Settle 2 Rejected])
     = [SetTimeout 1 1000, Invoke 0 (SaveNote ''42'' ''a''), ClearTimeout 1, SetTimeout 2 1000,
        Settled 0 (Resolved Unit), Invoke 1 TriggerRefreshNotes,
        Invoke 2 (SaveNote ''42'' ''b''), Settled 2 Rejected,
        ConsoleError ''Failed to save note:'']
   \<and> saveTimeout (run (mounted AppVue ''note-42'' [] [])
      [MarkdownUpdated ''a'', Tick 1000, TimerFires 1, MarkdownUpdated ''b'',
       Settle 0 (Resolved Unit), Tick 1000, TimerFires 2, Settle 2 Rejected]) = None
   \<and> currentContent (run (mounted AppVue ''note-42'' [] [])
      [MarkdownUpdated ''a'', Tick 1000, TimerFires 1, MarkdownUpdated ''b'',
       Settle 0 (Resolved Unit), Tick 1000, TimerFires 2, Settle 2 Rejected]) = ''b''
   \<and> emitted (run (mounted AppVue ''note-42'' [] [])
      [MarkdownUpdated ''a'', Tick 1000, TimerFires 1, MarkdownUpdated ''b'',
       Settle 0 (Resolved Unit), Tick 1000, TimerFires 2, Settle 2 Rejected]) ClickClose
     = [Invoke 3 WindowClose]
   \<and> trace (run (mounted AppVue ''note-42'' [] [])
      [MarkdownUpdated ''a'', Tick 1000, TimerFires 1, MarkdownUpdated ''b'', Tick 1000,
       TimerFires 2, Settle 1 Rejected, Settle 0 (Resolved Unit)])
     = [SetTimeout 1 1000, Invoke 0 (SaveNote ''42'' ''a''), ClearTimeout 1, SetTimeout 2 1000,
        Invoke 1 (SaveNote ''42'' ''b''), Settled 1 Rejected,
        ConsoleError ''Failed to save note:'', Settled 0 (Resolved Unit),
        Invoke 2 TriggerRefreshNotes]
   \<and> emitted (run (mounted AppVue ''note-42'' [] [])
      [MarkdownUpdated ''a'', Tick 1000, TimerFires 1, MarkdownUpdated ''b'', Tick 1000,
       TimerFires 2, Settle 1 Rejected, Settle 0 (Resolved Unit)]) ClickClose
     = [Invoke 3 WindowClose]
   \<and> emitted (run (mounted Part000 ''note-42'' [] [])
      [MarkdownUpdated ''a'', Tick 1000, TimerFires 1, MarkdownUpdated ''b'',
       Settle 0 (Resolved Unit), Tick 1000, TimerFires 2, Settle 1 Rejected]) ClickClose
     = [Invoke 2 WindowClose]"
  by (simp add: eval_defs)

end
